theory Spec2Isabelle
  imports Complex_Main "HOL-Library.Word"
begin

section \<open>JavaScript strings\<close>

text \<open>
  A JavaScript string is a sequence of UTF-16 code units.  The component reads the text
  of a textarea, trims it, hands it to \<^verbatim>\<open>JSON.parse\<close> and shows what
  \<^verbatim>\<open>JSON.stringify\<close> returns, so every text of the model is a list of 16-bit words.
  \<open>js\<close> turns an ASCII literal into such a text.
\<close>

type_synonym u16 = "16 word"
type_synonym jsstring = "u16 list"

definition js :: "string \<Rightarrow> jsstring" where
  "js s = map (\<lambda>c. of_nat (of_char c)) s"

abbreviation (input) TAB :: u16 where "TAB \<equiv> 0x09"
abbreviation (input) NL :: u16 where "NL \<equiv> 0x0A"
abbreviation (input) CR :: u16 where "CR \<equiv> 0x0D"
abbreviation (input) SPACE :: u16 where "SPACE \<equiv> 0x20"
abbreviation (input) QUOTE :: u16 where "QUOTE \<equiv> 0x22"
abbreviation (input) PLUS :: u16 where "PLUS \<equiv> 0x2B"
abbreviation (input) COMMA :: u16 where "COMMA \<equiv> 0x2C"
abbreviation (input) MINUS :: u16 where "MINUS \<equiv> 0x2D"
abbreviation (input) DOT :: u16 where "DOT \<equiv> 0x2E"
abbreviation (input) SLASH :: u16 where "SLASH \<equiv> 0x2F"
abbreviation (input) ZERO :: u16 where "ZERO \<equiv> 0x30"
abbreviation (input) COLON :: u16 where "COLON \<equiv> 0x3A"
abbreviation (input) UPPER_E :: u16 where "UPPER_E \<equiv> 0x45"
abbreviation (input) LBRACKET :: u16 where "LBRACKET \<equiv> 0x5B"
abbreviation (input) BACKSLASH :: u16 where "BACKSLASH \<equiv> 0x5C"
abbreviation (input) RBRACKET :: u16 where "RBRACKET \<equiv> 0x5D"
abbreviation (input) LOWER_E :: u16 where "LOWER_E \<equiv> 0x65"
abbreviation (input) LOWER_U :: u16 where "LOWER_U \<equiv> 0x75"
abbreviation (input) LBRACE :: u16 where "LBRACE \<equiv> 0x7B"
abbreviation (input) RBRACE :: u16 where "RBRACE \<equiv> 0x7D"

text \<open>
  \<^verbatim>\<open>String.prototype.trim\<close> removes the code units of WhiteSpace and LineTerminator
  (ECMA-262, 22.1.3.32) from both ends.
\<close>

definition is_js_space :: "u16 \<Rightarrow> bool" where
  "is_js_space c \<longleftrightarrow>
     c = 0x09 \<or> c = 0x0A \<or> c = 0x0B \<or> c = 0x0C \<or> c = 0x0D \<or> c = 0x20 \<or> c = 0xA0 \<or>
     c = 0x1680 \<or> (0x2000 \<le> c \<and> c \<le> 0x200A) \<or> c = 0x2028 \<or> c = 0x2029 \<or>
     c = 0x202F \<or> c = 0x205F \<or> c = 0x3000 \<or> c = 0xFEFF"

definition trim :: "jsstring \<Rightarrow> jsstring" where
  "trim s = rev (dropWhile is_js_space (rev (dropWhile is_js_space s)))"

definition startsWith :: "jsstring \<Rightarrow> jsstring \<Rightarrow> bool" where
  "startsWith s p \<longleftrightarrow> take (length p) s = p"

definition endsWith :: "jsstring \<Rightarrow> jsstring \<Rightarrow> bool" where
  "endsWith s p \<longleftrightarrow> length p \<le> length s \<and> drop (length s - length p) s = p"

section \<open>Number values\<close>

text \<open>
  A Number is an IEEE 754 double.  \<^verbatim>\<open>JSON.parse\<close> never yields NaN, so a Number
  here is a sign and a magnitude: zero, infinity, or \<open>MFin n u\<close> standing for
  \<open>n * 2 ^ u\<close> with the significand \<open>n\<close> and the exponent \<open>u\<close> of the binary
  format (normal: \<open>2^52 \<le> n < 2^53\<close> and \<open>-1074 \<le> u \<le> 971\<close>; subnormal:
  \<open>0 < n < 2^52\<close> and \<open>u = -1074\<close>).
\<close>

datatype magnitude = MZero | MFin int int | MInf

datatype jsnum = Num (negative: bool) (mag: magnitude)

definition is_double :: "magnitude \<Rightarrow> bool" where
  "is_double m = (case m of
      MFin n u \<Rightarrow> (2 ^ 52 \<le> n \<and> n < 2 ^ 53 \<and> - 1074 \<le> u \<and> u \<le> 971) \<or>
                  (0 < n \<and> n < 2 ^ 52 \<and> u = - 1074)
    | _ \<Rightarrow> True)"

definition mag_value :: "magnitude \<Rightarrow> rat" where
  "mag_value m = (case m of MFin n u \<Rightarrow> of_int n * 2 powi u | _ \<Rightarrow> 0)"

text \<open>
  \<open>ilog b q\<close> is the integer \<open>e\<close> with \<open>b ^ e \<le> q < b ^ (e + 1)\<close>, for \<open>q > 0\<close>
  and \<open>b \<ge> 2\<close>: the binary exponent of a value for \<open>b = 2\<close>, the decimal one for
  \<open>b = 10\<close>.
\<close>

definition ilog_measure :: "nat \<times> rat \<Rightarrow> nat" where
  "ilog_measure = (\<lambda>(b, q). if 1 \<le> q then nat \<lceil>q\<rceil> else b * nat \<lceil>1 / q\<rceil> + b)"

lemma div_le_half:
  fixes t :: rat
  assumes "2 \<le> b" "0 \<le> t"
  shows "t / of_nat b \<le> t / 2"
  using assms by (intro divide_left_mono) auto

lemma ceil_div_less:
  fixes t :: rat
  assumes "2 \<le> b" "1 < t"
  shows "\<lceil>t / of_nat b\<rceil> < \<lceil>t\<rceil>"
proof (cases "2 \<le> t")
  case True
  have "t / of_nat b \<le> t / 2" using assms by (intro div_le_half) auto
  also have "\<dots> \<le> t - 1" using True by simp
  finally have "\<lceil>t / of_nat b\<rceil> \<le> \<lceil>t - 1\<rceil>" by (rule ceiling_mono)
  then show ?thesis by simp
next
  case False
  have "t / of_nat b \<le> t / 2" using assms by (intro div_le_half) auto
  also have "\<dots> \<le> 1" using False by simp
  finally have "\<lceil>t / of_nat b\<rceil> \<le> 1" by (simp add: ceiling_le_one)
  moreover have "1 < \<lceil>t\<rceil>" using assms(2) by (simp add: less_ceiling_iff)
  ultimately show ?thesis by linarith
qed

function ilog :: "nat \<Rightarrow> rat \<Rightarrow> int" where
  "ilog b q =
     (if b < 2 \<or> q \<le> 0 then 0
      else if of_nat b \<le> q then ilog b (q / of_nat b) + 1
      else if q < 1 then ilog b (q * of_nat b) - 1
      else 0)"
  by pat_completeness auto
termination
proof (relation "measure ilog_measure")
  show "wf (measure ilog_measure)" by simp
next
  fix b :: nat and q :: rat
  assume a: "\<not> (b < 2 \<or> q \<le> 0)" "of_nat b \<le> q"
  then have b2: "2 \<le> b" and q1: "1 < q" by auto
  have "\<lceil>q / of_nat b\<rceil> < \<lceil>q\<rceil>" using ceil_div_less [OF b2 q1] .
  moreover have "1 \<le> q / of_nat b" using a by (simp add: field_simps)
  moreover have "0 < \<lceil>q\<rceil>" using q1 by (simp add: less_ceiling_iff)
  ultimately show "((b, q / of_nat b), (b, q)) \<in> measure ilog_measure"
    using q1 by (simp add: ilog_measure_def)
next
  fix b :: nat and q :: rat
  assume a: "\<not> (b < 2 \<or> q \<le> 0)" "\<not> of_nat b \<le> q" "q < 1"
  then have b2: "2 \<le> b" and q0: "0 < q" by auto
  have t: "1 < 1 / q" using a q0 by simp
  have lt: "\<lceil>1 / q / of_nat b\<rceil> < \<lceil>1 / q\<rceil>" using ceil_div_less [OF b2 t] .
  have pos: "0 < \<lceil>1 / q\<rceil>" using q0 by (simp add: less_ceiling_iff)
  have eq: "1 / (q * of_nat b) = 1 / q / of_nat b" by simp
  show "((b, q * of_nat b), (b, q)) \<in> measure ilog_measure"
  proof (cases "1 \<le> q * of_nat b")
    case True
    have "q * of_nat b < of_nat b" using q0 a b2 by simp
    then have "\<lceil>q * of_nat b\<rceil> \<le> int b" by (simp add: ceiling_le_iff)
    then have le: "nat \<lceil>q * of_nat b\<rceil> \<le> b" by linarith
    have n1: "1 \<le> nat \<lceil>1 / q\<rceil>" using pos by linarith
    have "b * 1 \<le> b * nat \<lceil>1 / q\<rceil>" by (rule mult_le_mono2) (rule n1)
    with le b2 have "nat \<lceil>q * of_nat b\<rceil> < b * nat \<lceil>1 / q\<rceil> + b"
      by linarith
    then show ?thesis using True a by (simp add: ilog_measure_def)
  next
    case False
    from lt pos have "nat \<lceil>1 / q / of_nat b\<rceil> < nat \<lceil>1 / q\<rceil>" by linarith
    then have "nat \<lceil>1 / (q * of_nat b)\<rceil> < nat \<lceil>1 / q\<rceil>" by (simp only: eq)
    then have "b * nat \<lceil>1 / (q * of_nat b)\<rceil> < b * nat \<lceil>1 / q\<rceil>" using b2 by simp
    moreover have "\<not> 1 \<le> q" using a by simp
    ultimately show ?thesis
      using False unfolding ilog_measure_def
      by (simp only: in_measure prod.case if_False add_less_cancel_right)
  qed
qed

declare ilog.simps [simp del]

text \<open>
  The Number value for a mathematical value (ECMA-262, 6.1.6.1): the nearest double,
  a tie going to the even significand, and infinity from \<open>2 ^ 1024\<close> on.
\<close>

definition round_half_even :: "rat \<Rightarrow> int" where
  "round_half_even r =
     (let f = \<lfloor>r\<rfloor>; d = r - of_int f
      in if d < 1 / 2 then f else if 1 / 2 < d then f + 1 else if even f then f else f + 1)"

definition round_mag :: "rat \<Rightarrow> magnitude" where
  "round_mag q =
     (if q \<le> 0 then MZero
      else let u = max (ilog 2 q) (- 1022) - 52;
               n = round_half_even (q / 2 powi u)
           in if n = 0 then MZero
              else if n = 2 ^ 53 then (if 970 < u then MInf else MFin (2 ^ 52) (u + 1))
              else if 971 < u then MInf
              else MFin n u)"

subsection \<open>Decimal digits\<close>

definition is_digit :: "u16 \<Rightarrow> bool" where
  "is_digit c \<longleftrightarrow> 0x30 \<le> c \<and> c \<le> 0x39"

definition digit_val :: "u16 \<Rightarrow> int" where
  "digit_val c = uint c - 48"

definition digit_char :: "int \<Rightarrow> u16" where
  "digit_char d = of_int (48 + d)"

definition int_of_digits :: "jsstring \<Rightarrow> int" where
  "int_of_digits ds = foldl (\<lambda>a c. 10 * a + digit_val c) 0 ds"

function digits_of :: "int \<Rightarrow> jsstring" where
  "digits_of n = (if n < 10 then [digit_char n] else digits_of (n div 10) @ [digit_char (n mod 10)])"
  by pat_completeness auto
termination
  by (relation "measure nat") auto

declare digits_of.simps [simp del]

subsection \<open>Number::toString\<close>

text \<open>
  \<^verbatim>\<open>Number::toString\<close> (ECMA-262, 6.1.6.1.20) prints a finite non-zero magnitude
  from integers \<open>n\<close>, \<open>k\<close>, \<open>s\<close> with \<open>k\<close> digits in \<open>s\<close>, such that
  \<open>s * 10 ^ (n - k)\<close> is a decimal that converts back to the Number and \<open>k\<close> is as
  small as possible; of several such \<open>s\<close> the one closest to the Number, the even one on
  a tie.  A decimal is a pair \<open>(s, p)\<close> standing for \<open>s * 10 ^ p\<close>.

  \<open>pick x k\<close> tries the two \<open>k\<close>-digit decimals around the value.  \<open>shortest\<close>
  tries \<open>k = 1, 2, \<dots>, 17\<close>; seventeen digits identify every double, and the exact
  decimal expansion stands behind them so that the function is total.
\<close>

definition dec_value :: "int \<times> int \<Rightarrow> rat" where
  "dec_value sp = of_int (fst sp) * 10 powi (snd sp)"

definition pick :: "magnitude \<Rightarrow> nat \<Rightarrow> (int \<times> int) option" where
  "pick x k =
     (let v = mag_value x;
          p = ilog 10 v + 1 - int k;
          lo = \<lfloor>v / 10 powi p\<rfloor>;
          hi = lo + 1;
          oklo = (round_mag (dec_value (lo, p)) = x);
          okhi = (round_mag (dec_value (hi, p)) = x);
          dlo = v - dec_value (lo, p);
          dhi = dec_value (hi, p) - v
      in if oklo \<and> (okhi \<longrightarrow> dlo < dhi \<or> (dlo = dhi \<and> even lo)) then Some (lo, p)
         else if okhi then Some (hi, p)
         else None)"

definition exact_decimal :: "magnitude \<Rightarrow> int \<times> int" where
  "exact_decimal x = (case x of
      MFin n u \<Rightarrow> if 0 \<le> u then (n * 2 ^ nat u, 0) else (n * 5 ^ nat (- u), u)
    | _ \<Rightarrow> (0, 0))"

fun shortest :: "magnitude \<Rightarrow> nat \<Rightarrow> nat \<Rightarrow> int \<times> int" where
  "shortest x k 0 = exact_decimal x"
| "shortest x k (Suc fuel) =
     (case pick x k of Some c \<Rightarrow> c | None \<Rightarrow> shortest x (Suc k) fuel)"

function strip10 :: "int \<Rightarrow> int \<Rightarrow> int \<times> int" where
  "strip10 s p = (if s \<noteq> 0 \<and> s mod 10 = 0 then strip10 (s div 10) (p + 1) else (s, p))"
  by pat_completeness auto
termination
  by (relation "measure (\<lambda>(s, p). nat \<bar>s\<bar>)") auto

declare strip10.simps [simp del]

definition shortest_decimal :: "magnitude \<Rightarrow> int \<times> int" where
  "shortest_decimal x = (case shortest x 1 17 of (s, p) \<Rightarrow> strip10 s p)"

definition layout :: "int \<times> int \<Rightarrow> jsstring" where
  "layout sp =
     (let ds = digits_of (fst sp); k = int (length ds); n = snd sp + k
      in if - 5 \<le> n \<and> n \<le> 21 then
           (if k \<le> n then ds @ replicate (nat (n - k)) ZERO
            else if 0 < n then take (nat n) ds @ [DOT] @ drop (nat n) ds
            else [ZERO, DOT] @ replicate (nat (- n)) ZERO @ ds)
         else
           (let e = n - 1;
                es = (if e < 0 then MINUS else PLUS) # digits_of \<bar>e\<bar>
            in if k = 1 then ds @ [LOWER_E] @ es
               else take 1 ds @ [DOT] @ drop 1 ds @ [LOWER_E] @ es))"

definition Number_toString :: "jsnum \<Rightarrow> jsstring" where
  "Number_toString x =
     (if mag x = MZero then js ''0''
      else if mag x = MInf then (if negative x then js ''-Infinity'' else js ''Infinity'')
      else (if negative x then [MINUS] else []) @ layout (shortest_decimal (mag x)))"

section \<open>JSON values\<close>

text \<open>
  What \<^verbatim>\<open>JSON.parse\<close> returns: null, a boolean, a Number, a string, an array, or an
  object.  An object is the list of its own properties in the order in which
  \<^verbatim>\<open>JSON.stringify\<close> enumerates them (ECMA-262, 10.1.11 OrdinaryOwnPropertyKeys):
  array-index keys first, by ascending value, then the other keys in the order of their
  creation.
\<close>

datatype json =
    JNull
  | JBool bool
  | JNum jsnum
  | JStr jsstring
  | JArr "json list"
  | JObj "(jsstring \<times> json) list"

definition is_array_index :: "jsstring \<Rightarrow> bool" where
  "is_array_index k \<longleftrightarrow>
     k \<noteq> [] \<and> list_all is_digit k \<and> (hd k = ZERO \<longrightarrow> length k = 1) \<and>
     length k \<le> 10 \<and> int_of_digits k < 4294967295"

fun update_prop :: "jsstring \<Rightarrow> json \<Rightarrow> (jsstring \<times> json) list \<Rightarrow> (jsstring \<times> json) list" where
  "update_prop k v [] = [(k, v)]"
| "update_prop k v (p # ps) = (if fst p = k then (k, v) # ps else p # update_prop k v ps)"

fun insert_index :: "jsstring \<Rightarrow> json \<Rightarrow> (jsstring \<times> json) list \<Rightarrow> (jsstring \<times> json) list" where
  "insert_index k v [] = [(k, v)]"
| "insert_index k v (p # ps) =
     (if is_array_index (fst p) \<and> int_of_digits (fst p) \<le> int_of_digits k
      then p # insert_index k v ps
      else (k, v) # p # ps)"

text \<open>
  CreateDataProperty on an ordinary object: an existing property keeps its place and
  takes the new value; a new array-index key goes to its place among the array-index
  keys, after those of a smaller value; any other new key goes to the end.
\<close>

definition obj_put :: "jsstring \<Rightarrow> json \<Rightarrow> (jsstring \<times> json) list \<Rightarrow> (jsstring \<times> json) list" where
  "obj_put k v ps =
     (if k \<in> set (map fst ps) \<or> \<not> is_array_index k then update_prop k v ps
      else insert_index k v ps)"

section \<open>JSON.parse\<close>

text \<open>
  \<^verbatim>\<open>JSON.parse(text)\<close> (ECMA-262, 25.5.1) without a reviver: the text is read by the
  JSON grammar (ECMA-404), here in two passes, the tokens and then the values.
\<close>

subsection \<open>Tokens\<close>

datatype token =
    TLBrace | TRBrace | TLBracket | TRBracket | TColon | TComma
  | TNull | TTrue | TFalse
  | TStr jsstring
  | TNum jsnum

definition is_json_ws :: "u16 \<Rightarrow> bool" where
  "is_json_ws c \<longleftrightarrow> c = TAB \<or> c = NL \<or> c = CR \<or> c = SPACE"

definition hex_val :: "u16 \<Rightarrow> int option" where
  "hex_val c =
     (if 0x30 \<le> c \<and> c \<le> 0x39 then Some (uint c - 48)
      else if 0x41 \<le> c \<and> c \<le> 0x46 then Some (uint c - 55)
      else if 0x61 \<le> c \<and> c \<le> 0x66 then Some (uint c - 87)
      else None)"

definition hex4 :: "u16 \<Rightarrow> u16 \<Rightarrow> u16 \<Rightarrow> u16 \<Rightarrow> u16 option" where
  "hex4 a b c d =
     (case hex_val a of None \<Rightarrow> None | Some w \<Rightarrow>
      case hex_val b of None \<Rightarrow> None | Some x \<Rightarrow>
      case hex_val c of None \<Rightarrow> None | Some y \<Rightarrow>
      case hex_val d of None \<Rightarrow> None | Some z \<Rightarrow>
        Some (of_int (((w * 16 + x) * 16 + y) * 16 + z)))"

definition unescape :: "u16 \<Rightarrow> u16 option" where
  "unescape e =
     (if e = QUOTE then Some QUOTE
      else if e = BACKSLASH then Some BACKSLASH
      else if e = SLASH then Some SLASH
      else if e = 0x62 then Some 0x08
      else if e = 0x66 then Some 0x0C
      else if e = 0x6E then Some 0x0A
      else if e = 0x72 then Some 0x0D
      else if e = 0x74 then Some 0x09
      else None)"

definition cons_fst :: "'a \<Rightarrow> ('a list \<times> 'b) option \<Rightarrow> ('a list \<times> 'b) option" where
  "cons_fst u r = map_option (\<lambda>(s, t). (u # s, t)) r"

text \<open>The characters of a string, after its opening quote, up to the closing one.\<close>

fun lex_string :: "jsstring \<Rightarrow> (jsstring \<times> jsstring) option" where
  "lex_string [] = None"
| "lex_string (c # cs) =
     (if c = QUOTE then Some ([], cs)
      else if c = BACKSLASH then
        (case cs of
           [] \<Rightarrow> None
         | e # r \<Rightarrow>
             if e = LOWER_U then
               (case r of
                  h1 # h2 # h3 # h4 # r' \<Rightarrow>
                    (case hex4 h1 h2 h3 h4 of
                       None \<Rightarrow> None
                     | Some u \<Rightarrow> cons_fst u (lex_string r'))
                | _ \<Rightarrow> None)
             else
               (case unescape e of
                  None \<Rightarrow> None
                | Some u \<Rightarrow> cons_fst u (lex_string r)))
      else if c < 0x20 then None
      else cons_fst c (lex_string cs))"

text \<open>
  A number of the JSON grammar: an optional minus, the integer digits (no leading zero
  before another digit), an optional fraction, an optional exponent.  Its value is the
  double nearest to the decimal it writes.
\<close>

definition lex_digits :: "jsstring \<Rightarrow> jsstring \<times> jsstring" where
  "lex_digits cs = (takeWhile is_digit cs, dropWhile is_digit cs)"

definition lex_int :: "jsstring \<Rightarrow> (jsstring \<times> jsstring) option" where
  "lex_int cs =
     (case lex_digits cs of (ip, r) \<Rightarrow>
        if ip = [] \<or> (hd ip = ZERO \<and> 1 < length ip) then None else Some (ip, r))"

definition lex_frac :: "jsstring \<Rightarrow> (jsstring \<times> jsstring) option" where
  "lex_frac cs =
     (if cs \<noteq> [] \<and> hd cs = DOT then
        (case lex_digits (tl cs) of (fp, r) \<Rightarrow> if fp = [] then None else Some (fp, r))
      else Some ([], cs))"

definition lex_exp :: "jsstring \<Rightarrow> (int \<times> jsstring) option" where
  "lex_exp cs =
     (if cs \<noteq> [] \<and> (hd cs = LOWER_E \<or> hd cs = UPPER_E) then
        (let r = tl cs;
             signed = (r \<noteq> [] \<and> (hd r = MINUS \<or> hd r = PLUS));
             eneg = (signed \<and> hd r = MINUS)
         in case lex_digits (if signed then tl r else r) of (ep, r') \<Rightarrow>
              if ep = [] then None
              else Some (if eneg then - int_of_digits ep else int_of_digits ep, r'))
      else Some (0, cs))"

definition lex_number :: "jsstring \<Rightarrow> (jsnum \<times> jsstring) option" where
  "lex_number cs =
     (let neg = (cs \<noteq> [] \<and> hd cs = MINUS) in
      case lex_int (if neg then tl cs else cs) of
        None \<Rightarrow> None
      | Some (ip, cs2) \<Rightarrow>
          (case lex_frac cs2 of
             None \<Rightarrow> None
           | Some (fp, cs3) \<Rightarrow>
               (case lex_exp cs3 of
                  None \<Rightarrow> None
                | Some (e, cs4) \<Rightarrow>
                    Some (Num neg (round_mag
                            (dec_value (int_of_digits (ip @ fp), e - int (length fp)))),
                          cs4))))"

lemma cons_fst_Some: "cons_fst u x = Some (s, r) \<longleftrightarrow> (\<exists>s'. x = Some (s', r) \<and> s = u # s')"
  by (cases x) (auto simp: cons_fst_def)

lemma lex_string_shorter: "lex_string cs = Some (s, r) \<Longrightarrow> length r < length cs"
proof (induction cs arbitrary: s rule: length_induct)
  case (1 cs)
  note IH = "1.IH" [rule_format]
  show ?case
  proof (cases cs)
    case Nil
    with "1.prems" show ?thesis by simp
  next
    case (Cons c cs')
    show ?thesis
    proof (cases "c = QUOTE")
      case True
      with "1.prems" Cons show ?thesis by simp
    next
      case nq: False
      show ?thesis
      proof (cases "c = BACKSLASH")
        case True
        with "1.prems" Cons obtain e r0 where cs': "cs' = e # r0"
          by (cases cs') auto
        show ?thesis
        proof (cases "e = LOWER_U")
          case True
          with "1.prems" Cons \<open>c = BACKSLASH\<close> cs'
          obtain h1 h2 h3 h4 r' u s' where r0: "r0 = h1 # h2 # h3 # h4 # r'"
            and "lex_string r' = Some (s', r)"
            by (auto simp: cons_fst_Some split: list.splits option.splits)
          then have "length r < length r'" using IH [of r' s'] Cons cs' by simp
          then show ?thesis using Cons cs' r0 by simp
        next
          case False
          with "1.prems" Cons \<open>c = BACKSLASH\<close> cs'
          obtain s' where "lex_string r0 = Some (s', r)"
            by (auto simp: cons_fst_Some split: option.splits)
          then have "length r < length r0" using IH [of r0 s'] Cons cs' by simp
          then show ?thesis using Cons cs' by simp
        qed
      next
        case nb: False
        with nq "1.prems" Cons obtain s' where "lex_string cs' = Some (s', r)"
          by (auto simp: cons_fst_Some split: if_splits)
        then have "length r < length cs'" using IH [of cs' s'] Cons by simp
        then show ?thesis using Cons by simp
      qed
    qed
  qed
qed
lemma lex_digits_length:
  "lex_digits cs = (ds, r) \<Longrightarrow> length ds + length r = length cs"
  unfolding lex_digits_def by (metis Pair_inject length_append takeWhile_dropWhile_id)

lemma lex_int_shorter: "lex_int cs = Some (ip, r) \<Longrightarrow> length r < length cs"
proof -
  assume a: "lex_int cs = Some (ip, r)"
  obtain ds r0 where d: "lex_digits cs = (ds, r0)" by (cases "lex_digits cs")
  with a have "ds \<noteq> []" and "r = r0" by (auto simp: lex_int_def split: if_splits)
  with lex_digits_length [OF d] show ?thesis by (cases ds) auto
qed

lemma lex_frac_shorter: "lex_frac cs = Some (fp, r) \<Longrightarrow> length r \<le> length cs"
proof -
  assume a: "lex_frac cs = Some (fp, r)"
  show ?thesis
  proof (cases "cs \<noteq> [] \<and> hd cs = DOT")
    case True
    obtain ds r0 where d: "lex_digits (tl cs) = (ds, r0)" by (cases "lex_digits (tl cs)")
    with a True have "r = r0" by (auto simp: lex_frac_def split: if_splits)
    with lex_digits_length [OF d] show ?thesis by simp
  next
    case False
    with a show ?thesis by (auto simp: lex_frac_def)
  qed
qed

lemma lex_exp_shorter: "lex_exp cs = Some (e, r) \<Longrightarrow> length r \<le> length cs"
proof -
  assume a: "lex_exp cs = Some (e, r)"
  show ?thesis
  proof (cases "cs \<noteq> [] \<and> (hd cs = LOWER_E \<or> hd cs = UPPER_E)")
    case True
    define r1 where "r1 = tl cs"
    define r2 where "r2 = (if r1 \<noteq> [] \<and> (hd r1 = MINUS \<or> hd r1 = PLUS) then tl r1 else r1)"
    obtain ds r0 where d: "lex_digits r2 = (ds, r0)" by (cases "lex_digits r2")
    from a True d have "r = r0"
      by (simp add: lex_exp_def Let_def r1_def r2_def split: if_splits)
    moreover have "length r2 \<le> length cs" by (simp add: r2_def r1_def)
    ultimately show ?thesis using lex_digits_length [OF d] by simp
  next
    case False
    with a show ?thesis by (auto simp: lex_exp_def)
  qed
qed

lemma lex_number_shorter:
  assumes "lex_number cs = Some (x, r)"
  shows "length r < length cs"
proof -
  define cs1 where "cs1 = (if cs \<noteq> [] \<and> hd cs = MINUS then tl cs else cs)"
  from assms obtain ip cs2 fp cs3 e where
    "lex_int cs1 = Some (ip, cs2)" "lex_frac cs2 = Some (fp, cs3)" "lex_exp cs3 = Some (e, r)"
    by (auto simp: lex_number_def Let_def cs1_def split: option.splits)
  then have "length cs2 < length cs1" "length cs3 \<le> length cs2" "length r \<le> length cs3"
    by (auto dest: lex_int_shorter lex_frac_shorter lex_exp_shorter)
  moreover have "length cs1 \<le> length cs" by (simp add: cs1_def)
  ultimately show ?thesis by linarith
qed

function lex_json :: "jsstring \<Rightarrow> token list option" where
  "lex_json [] = Some []"
| "lex_json (c # cs) =
     (if is_json_ws c then lex_json cs
      else if c = LBRACE then map_option (Cons TLBrace) (lex_json cs)
      else if c = RBRACE then map_option (Cons TRBrace) (lex_json cs)
      else if c = LBRACKET then map_option (Cons TLBracket) (lex_json cs)
      else if c = RBRACKET then map_option (Cons TRBracket) (lex_json cs)
      else if c = COLON then map_option (Cons TColon) (lex_json cs)
      else if c = COMMA then map_option (Cons TComma) (lex_json cs)
      else if c = QUOTE then
        (case lex_string cs of
           None \<Rightarrow> None
         | Some (s, r) \<Rightarrow> map_option (Cons (TStr s)) (lex_json r))
      else if c = MINUS \<or> is_digit c then
        (case lex_number (c # cs) of
           None \<Rightarrow> None
         | Some (x, r) \<Rightarrow> map_option (Cons (TNum x)) (lex_json r))
      else if startsWith (c # cs) (js ''null'') then map_option (Cons TNull) (lex_json (drop 3 cs))
      else if startsWith (c # cs) (js ''true'') then map_option (Cons TTrue) (lex_json (drop 3 cs))
      else if startsWith (c # cs) (js ''false'') then map_option (Cons TFalse) (lex_json (drop 4 cs))
      else None)"
  by pat_completeness auto
termination
proof (relation "measure length", goal_cases)
  case (9 c cs x2 x y)
  then have "length y < length cs" using lex_string_shorter [of cs x y] by simp
  then show ?case by simp
next
  case (10 c cs x2 x y)
  then show ?case using lex_number_shorter [of "c # cs" x y] by simp
qed simp_all

subsection \<open>Values\<close>

text \<open>
  The tokens are read by a pushdown automaton.  A frame of the stack is an array or an
  object under construction that awaits a value; the members of an object are added by
  CreateDataProperty, so a repeated key overwrites and keeps the first place.
\<close>

datatype frame =
    FArr "json list"
  | FObj "(jsstring \<times> json) list" jsstring

datatype pstate =
    PValue "frame list"
  | PArrFirst "frame list"
  | PArrNext "json list" "frame list"
  | PObjFirst "frame list"
  | PObjKey "(jsstring \<times> json) list" "frame list"
  | PObjColon "(jsstring \<times> json) list" jsstring "frame list"
  | PObjNext "(jsstring \<times> json) list" "frame list"
  | PDone json
  | PFail

fun deliver :: "json \<Rightarrow> frame list \<Rightarrow> pstate" where
  "deliver v [] = PDone v"
| "deliver v (FArr xs # stk) = PArrNext (xs @ [v]) stk"
| "deliver v (FObj ps k # stk) = PObjNext (obj_put k v ps) stk"

fun on_value :: "frame list \<Rightarrow> token \<Rightarrow> pstate" where
  "on_value stk TNull = deliver JNull stk"
| "on_value stk TTrue = deliver (JBool True) stk"
| "on_value stk TFalse = deliver (JBool False) stk"
| "on_value stk (TStr s) = deliver (JStr s) stk"
| "on_value stk (TNum x) = deliver (JNum x) stk"
| "on_value stk TLBracket = PArrFirst stk"
| "on_value stk TLBrace = PObjFirst stk"
| "on_value stk _ = PFail"

fun step :: "pstate \<Rightarrow> token \<Rightarrow> pstate" where
  "step (PValue stk) t = on_value stk t"
| "step (PArrFirst stk) t = (if t = TRBracket then deliver (JArr []) stk else on_value (FArr [] # stk) t)"
| "step (PArrNext xs stk) t =
     (if t = TComma then PValue (FArr xs # stk)
      else if t = TRBracket then deliver (JArr xs) stk
      else PFail)"
| "step (PObjFirst stk) t =
     (case t of TRBrace \<Rightarrow> deliver (JObj []) stk | TStr k \<Rightarrow> PObjColon [] k stk | _ \<Rightarrow> PFail)"
| "step (PObjKey ps stk) t = (case t of TStr k \<Rightarrow> PObjColon ps k stk | _ \<Rightarrow> PFail)"
| "step (PObjColon ps k stk) t = (if t = TColon then PValue (FObj ps k # stk) else PFail)"
| "step (PObjNext ps stk) t =
     (if t = TComma then PObjKey ps stk
      else if t = TRBrace then deliver (JObj ps) stk
      else PFail)"
| "step (PDone v) t = PFail"
| "step PFail t = PFail"

definition parse_tokens :: "token list \<Rightarrow> json option" where
  "parse_tokens ts = (case foldl step (PValue []) ts of PDone v \<Rightarrow> Some v | _ \<Rightarrow> None)"

text \<open>
  A text that is not JSON makes \<^verbatim>\<open>JSON.parse\<close> throw a SyntaxError.  The wording of
  its message is the engine's; \<open>diag\<close> stands for it, as a function of the text.
\<close>

datatype js_exn = SyntaxError jsstring | RangeError jsstring | Error jsstring | NonError

definition JSON_parse :: "(jsstring \<Rightarrow> jsstring) \<Rightarrow> jsstring \<Rightarrow> js_exn + json" where
  "JSON_parse diag text =
     (case lex_json text of
        None \<Rightarrow> Inl (SyntaxError (diag text))
      | Some ts \<Rightarrow>
          (case parse_tokens ts of
             None \<Rightarrow> Inl (SyntaxError (diag text))
           | Some v \<Rightarrow> Inr v))"

section \<open>JSON.stringify\<close>

text \<open>
  \<^verbatim>\<open>JSON.stringify(value, null, space)\<close> (ECMA-262, 25.5.2) on a value of the kind
  \<^verbatim>\<open>JSON.parse\<close> returns.  QuoteJSONString keeps a surrogate pair and escapes a lone
  surrogate, the control characters, the quote and the backslash.
\<close>

definition hex_digit :: "int \<Rightarrow> u16" where
  "hex_digit d = (if d < 10 then of_int (48 + d) else of_int (87 + d))"

definition unicode_escape :: "u16 \<Rightarrow> jsstring" where
  "unicode_escape c =
     (let n = uint c
      in [BACKSLASH, LOWER_U, hex_digit (n div 4096), hex_digit (n div 256 mod 16),
          hex_digit (n div 16 mod 16), hex_digit (n mod 16)])"

definition is_lead :: "u16 \<Rightarrow> bool" where
  "is_lead c \<longleftrightarrow> 0xD800 \<le> c \<and> c \<le> 0xDBFF"

definition is_trail :: "u16 \<Rightarrow> bool" where
  "is_trail c \<longleftrightarrow> 0xDC00 \<le> c \<and> c \<le> 0xDFFF"

definition escape_unit :: "u16 \<Rightarrow> jsstring" where
  "escape_unit c =
     (if c = 0x08 then [BACKSLASH, 0x62]
      else if c = 0x09 then [BACKSLASH, 0x74]
      else if c = 0x0A then [BACKSLASH, 0x6E]
      else if c = 0x0C then [BACKSLASH, 0x66]
      else if c = 0x0D then [BACKSLASH, 0x72]
      else if c = QUOTE then [BACKSLASH, QUOTE]
      else if c = BACKSLASH then [BACKSLASH, BACKSLASH]
      else if c < 0x20 \<or> is_lead c \<or> is_trail c then unicode_escape c
      else [c])"

fun quote_units :: "jsstring \<Rightarrow> jsstring" where
  "quote_units [] = []"
| "quote_units [c] = escape_unit c"
| "quote_units (c # d # cs) =
     (if is_lead c \<and> is_trail d then c # d # quote_units cs
      else escape_unit c @ quote_units (d # cs))"

definition QuoteJSONString :: "jsstring \<Rightarrow> jsstring" where
  "QuoteJSONString s = [QUOTE] @ quote_units s @ [QUOTE]"

fun join :: "'a list \<Rightarrow> 'a list list \<Rightarrow> 'a list" where
  "join sep [] = []"
| "join sep [x] = x"
| "join sep (x # y # ys) = x @ sep @ join sep (y # ys)"

text \<open>
  SerializeJSONArray and SerializeJSONObject share their layout: nothing between the
  brackets when there is no part; the parts separated by commas when the gap is empty;
  otherwise each part on a line of its own, indented one gap more than the bracket that
  closes them.
\<close>

definition wrap :: "u16 \<Rightarrow> u16 \<Rightarrow> jsstring \<Rightarrow> jsstring \<Rightarrow> jsstring list \<Rightarrow> jsstring" where
  "wrap opn cls gap stepback parts =
     (if parts = [] then [opn, cls]
      else if gap = [] then [opn] @ join [COMMA] parts @ [cls]
      else [opn, NL] @ (stepback @ gap) @ join ([COMMA, NL] @ (stepback @ gap)) parts @
           [NL] @ stepback @ [cls])"

fun ser :: "jsstring \<Rightarrow> jsstring \<Rightarrow> json \<Rightarrow> jsstring" where
  "ser gap ind JNull = js ''null''"
| "ser gap ind (JBool b) = (if b then js ''true'' else js ''false'')"
| "ser gap ind (JNum x) = (if mag x = MInf then js ''null'' else Number_toString x)"
| "ser gap ind (JStr s) = QuoteJSONString s"
| "ser gap ind (JArr xs) = wrap LBRACKET RBRACKET gap ind (map (ser gap (ind @ gap)) xs)"
| "ser gap ind (JObj ps) =
     wrap LBRACE RBRACE gap ind
       (map (\<lambda>(k, v). QuoteJSONString k @ [COLON] @ (if gap = [] then [] else [SPACE]) @
                       ser gap (ind @ gap) v) ps)"

text \<open>
  The \<open>space\<close> argument is absent (\<open>None\<close>) or a number; a number gives a gap of that
  many spaces, ten at most.
\<close>

definition JSON_stringify :: "json \<Rightarrow> nat option \<Rightarrow> jsstring" where
  "JSON_stringify v space =
     ser (case space of None \<Rightarrow> [] | Some n \<Rightarrow> replicate (min n 10) SPACE) [] v"

text \<open>
  The serializer recurses into the arrays and objects of the value and builds one string.
  An engine gives up with a RangeError when that exceeds its stack or the longest string
  it can hold.  When it does is the engine's matter: \<open>limits v space\<close> is the message of
  that RangeError if the engine gives up on \<open>v\<close>, and \<open>None\<close> if it serializes \<open>v\<close>.
\<close>

type_synonym engine_limits = "json \<Rightarrow> nat option \<Rightarrow> jsstring option"

definition JSON_stringify_on :: "engine_limits \<Rightarrow> json \<Rightarrow> nat option \<Rightarrow> js_exn + jsstring" where
  "JSON_stringify_on limits v space =
     (case limits v space of
        Some m \<Rightarrow> Inl (RangeError m)
      | None \<Rightarrow> Inr (JSON_stringify v space))"

section \<open>The component\<close>

text \<open>
  The state of \<^verbatim>\<open>JsonFormatter\<close> that the formatting touches, and its functions
  \<^verbatim>\<open>parseJson\<close>, \<^verbatim>\<open>formatJson\<close> and the handlers that call them.  A
  \<^verbatim>\<open>throw\<close> is the left injection of a sum, a state setter an update of the record.
\<close>

record FormatOptions =
  indent :: nat
  minify :: bool

record state =
  input :: jsstring
  "output" :: jsstring
  error :: "jsstring option"
  options :: FormatOptions

definition looks_like_json :: "jsstring \<Rightarrow> bool" where
  "looks_like_json t \<longleftrightarrow>
     (startsWith t (js ''{'') \<and> endsWith t (js ''}'')) \<or>
     (startsWith t (js ''['') \<and> endsWith t (js '']''))"

definition parseJson :: "(jsstring \<Rightarrow> jsstring) \<Rightarrow> jsstring \<Rightarrow> js_exn + json" where
  "parseJson diag text =
     (let cleaned = trim text in
      if cleaned = [] then Inr JNull
      else case JSON_parse diag cleaned of
        Inl (SyntaxError m) \<Rightarrow> Inl (Error (js ''Invalid JSON: '' @ m))
      | Inl err \<Rightarrow> Inl err
      | Inr (JStr str) \<Rightarrow>
          (let trimmedString = trim str in
           if looks_like_json trimmedString then
             (case JSON_parse diag trimmedString of
                Inr inner \<Rightarrow> Inr inner
              | Inl _ \<Rightarrow> Inr (JStr str))
           else Inr (JStr str))
      | Inr parsed \<Rightarrow> Inr parsed)"

definition error_message :: "js_exn \<Rightarrow> jsstring" where
  "error_message err = (case err of
      SyntaxError m \<Rightarrow> m
    | RangeError m \<Rightarrow> m
    | Error m \<Rightarrow> m
    | NonError \<Rightarrow> js ''Unknown error occurred'')"

text \<open>
  The \<^verbatim>\<open>try\<close> of \<^verbatim>\<open>formatJson\<close> covers the parse and the serialization: what either
  throws ends in the \<^verbatim>\<open>catch\<close>, which sets the error and clears the output.
\<close>

definition formatJson ::
  "(jsstring \<Rightarrow> jsstring) \<Rightarrow> engine_limits \<Rightarrow> jsstring \<Rightarrow> FormatOptions \<Rightarrow> state \<Rightarrow> state" where
  "formatJson diag limits text opts st =
     (case parseJson diag text of
        Inr parsed \<Rightarrow>
          (case (if minify opts then JSON_stringify_on limits parsed None
                 else JSON_stringify_on limits parsed (Some (indent opts))) of
             Inr formatted \<Rightarrow> st\<lparr>error := None, output := formatted\<rparr>
           | Inl err \<Rightarrow> st\<lparr>error := Some (error_message err), output := []\<rparr>)
      | Inl err \<Rightarrow> st\<lparr>error := Some (error_message err), output := []\<rparr>)"

definition handleInputChange ::
  "(jsstring \<Rightarrow> jsstring) \<Rightarrow> engine_limits \<Rightarrow> jsstring \<Rightarrow> state \<Rightarrow> state" where
  "handleInputChange diag limits newInput st =
     (if trim newInput \<noteq> [] then
        formatJson diag limits newInput (options st) (st\<lparr>input := newInput\<rparr>)
      else st\<lparr>input := newInput, output := [], error := None\<rparr>)"

definition handleFormat :: "(jsstring \<Rightarrow> jsstring) \<Rightarrow> engine_limits \<Rightarrow> state \<Rightarrow> state" where
  "handleFormat diag limits st =
     (if trim (input st) \<noteq> [] then formatJson diag limits (input st) (options st) st else st)"

definition handleOptionsChange ::
  "(jsstring \<Rightarrow> jsstring) \<Rightarrow> engine_limits \<Rightarrow> FormatOptions \<Rightarrow> state \<Rightarrow> state" where
  "handleOptionsChange diag limits updatedOptions st =
     (if trim (input st) \<noteq> [] then
        formatJson diag limits (input st) updatedOptions (st\<lparr>options := updatedOptions\<rparr>)
      else st\<lparr>options := updatedOptions\<rparr>)"

definition isValid :: "state \<Rightarrow> bool" where
  "isValid st \<longleftrightarrow> error st = None \<and> 0 < length (output st)"

section \<open>Reading back what was written\<close>

text \<open>
  The rest of the theory relates \<^verbatim>\<open>JSON.parse\<close> to \<^verbatim>\<open>JSON.stringify\<close>.
  \<open>num_end\<close> says that a text cannot continue a number.
\<close>

definition num_end :: "jsstring \<Rightarrow> bool" where
  "num_end cs \<longleftrightarrow>
     cs = [] \<or> (\<not> is_digit (hd cs) \<and> hd cs \<noteq> DOT \<and> hd cs \<noteq> LOWER_E \<and> hd cs \<noteq> UPPER_E)"

text \<open>
  \<open>reparsed v\<close> is the value that the text written for \<open>v\<close> stands for: an
  infinite Number is written \<open>null\<close>, and minus zero is written \<open>0\<close>.  \<open>toks v\<close>
  are the tokens of the text written for a value that reads back as itself.
\<close>

definition reparsed_num :: "jsnum \<Rightarrow> json" where
  "reparsed_num x =
     (if mag x = MInf then JNull
      else if mag x = MZero then JNum (Num False MZero)
      else JNum x)"

fun reparsed :: "json \<Rightarrow> json" where
  "reparsed JNull = JNull"
| "reparsed (JBool b) = JBool b"
| "reparsed (JNum x) = reparsed_num x"
| "reparsed (JStr s) = JStr s"
| "reparsed (JArr xs) = JArr (map reparsed xs)"
| "reparsed (JObj ps) = JObj (map (\<lambda>(k, v). (k, reparsed v)) ps)"

fun toks :: "json \<Rightarrow> token list" where
  "toks JNull = [TNull]"
| "toks (JBool b) = [if b then TTrue else TFalse]"
| "toks (JNum x) = [TNum x]"
| "toks (JStr s) = [TStr s]"
| "toks (JArr xs) = [TLBracket] @ join [TComma] (map toks xs) @ [TRBracket]"
| "toks (JObj ps) =
     [TLBrace] @ join [TComma] (map (\<lambda>(k, v). TStr k # TColon # toks v) ps) @ [TRBrace]"

text \<open>
  The values that \<^verbatim>\<open>JSON.parse\<close> can return: every Number is a double, and the keys
  of an object are distinct and stand in the order of enumeration, the array-index keys
  first and ascending.
\<close>

fun keys_ok :: "jsstring list \<Rightarrow> bool" where
  "keys_ok [] = True"
| "keys_ok (k # ks) =
     (k \<notin> set ks \<and> keys_ok ks \<and>
      (if is_array_index k
       then list_all (\<lambda>k'. is_array_index k' \<longrightarrow> int_of_digits k \<le> int_of_digits k') ks
       else list_all (\<lambda>k'. \<not> is_array_index k') ks))"

fun wf_json :: "json \<Rightarrow> bool" where
  "wf_json JNull = True"
| "wf_json (JBool b) = True"
| "wf_json (JNum x) = is_double (mag x)"
| "wf_json (JStr s) = True"
| "wf_json (JArr xs) = list_all wf_json xs"
| "wf_json (JObj ps) = (keys_ok (map fst ps) \<and> list_all (\<lambda>(k, v). wf_json v) ps)"

fun all_finite :: "json \<Rightarrow> bool" where
  "all_finite JNull = True"
| "all_finite (JBool b) = True"
| "all_finite (JNum x) = (mag x \<noteq> MInf)"
| "all_finite (JStr s) = True"
| "all_finite (JArr xs) = list_all all_finite xs"
| "all_finite (JObj ps) = list_all (\<lambda>(k, v). all_finite v) ps"

fun pos_zero :: "json \<Rightarrow> json" where
  "pos_zero JNull = JNull"
| "pos_zero (JBool b) = JBool b"
| "pos_zero (JNum x) = (if mag x = MZero then JNum (Num False MZero) else JNum x)"
| "pos_zero (JStr s) = JStr s"
| "pos_zero (JArr xs) = JArr (map pos_zero xs)"
| "pos_zero (JObj ps) = JObj (map (\<lambda>(k, v). (k, pos_zero v)) ps)"

subsection \<open>Binary exponents and rounding\<close>

lemma ilog_bounds:
  assumes "2 \<le> b" "0 < q"
  shows "of_nat b powi (ilog b q) \<le> q \<and> q < of_nat b powi (ilog b q + 1)"
  using assms
proof (induction b q rule: ilog.induct)
  case (1 b q)
  let ?B = "of_nat b :: rat"
  have B: "1 < ?B" "?B \<noteq> 0" "0 < ?B" using "1.prems"(1) by auto
  have guard: "\<not> (b < 2 \<or> q \<le> 0)" using "1.prems" by auto
  show ?case
  proof (cases "?B \<le> q")
    case True
    have e: "ilog b q = ilog b (q / ?B) + 1"
      using True guard by (subst ilog.simps) simp
    have "0 < q / ?B" using "1.prems"(2) B by simp
    with "1.IH"(1) [OF guard True "1.prems"(1)]
    have ih: "?B powi (ilog b (q / ?B)) \<le> q / ?B" "q / ?B < ?B powi (ilog b (q / ?B) + 1)"
      by auto
    have "?B powi (ilog b (q / ?B) + 1) = ?B powi (ilog b (q / ?B)) * ?B"
      using B by (simp add: power_int_add)
    moreover have "?B powi (ilog b (q / ?B) + 1 + 1) = ?B powi (ilog b (q / ?B) + 1) * ?B"
      using B by (subst power_int_add [of _ _ 1]) auto
    ultimately show ?thesis
      unfolding e using ih B by (simp add: pos_le_divide_eq pos_divide_less_eq)
  next
    case nB: False
    show ?thesis
    proof (cases "q < 1")
      case True
      have e: "ilog b q = ilog b (q * ?B) - 1"
        using True nB guard by (subst ilog.simps) simp
      have "0 < q * ?B" using "1.prems"(2) B by simp
      with "1.IH"(2) [OF guard nB True "1.prems"(1)]
      have ih: "?B powi (ilog b (q * ?B)) \<le> q * ?B" "q * ?B < ?B powi (ilog b (q * ?B) + 1)"
        by auto
      have "?B powi (ilog b (q * ?B)) = ?B powi (ilog b (q * ?B) - 1) * ?B"
        using B power_int_minus_mult [of ?B "ilog b (q * ?B)"] by simp
      with ih(1) have "?B powi (ilog b (q * ?B) - 1) * ?B \<le> q * ?B" by simp
      then have lo: "?B powi (ilog b (q * ?B) - 1) \<le> q"
        using B by (simp only: mult_le_cancel_right_pos)
      have "?B powi (ilog b (q * ?B) + 1) = ?B powi (ilog b (q * ?B)) * ?B"
        using B by (simp add: power_int_add)
      with ih(2) have "q * ?B < ?B powi (ilog b (q * ?B)) * ?B" by simp
      then have hi: "q < ?B powi (ilog b (q * ?B))"
        using B by (simp only: mult_less_cancel_right_pos)
      from lo hi show ?thesis unfolding e by simp
    next
      case False
      have e: "ilog b q = 0" using False nB guard by (subst ilog.simps) simp
      show ?thesis unfolding e using False nB by simp
    qed
  qed
qed

lemma ilog_unique:
  assumes "2 \<le> b" "of_nat b powi e \<le> q" "q < of_nat b powi (e + 1)"
  shows "ilog b q = e"
proof -
  let ?B = "of_nat b :: rat"
  have B: "1 < ?B" using assms(1) by auto
  have "0 < ?B powi e" using B by simp
  with assms(2) have q: "0 < q" by simp
  from ilog_bounds [OF assms(1) q]
  have i: "?B powi (ilog b q) \<le> q" "q < ?B powi (ilog b q + 1)" by auto
  have "?B powi (ilog b q) < ?B powi (e + 1)" using i(1) assms(3) by simp
  then have 1: "ilog b q < e + 1"
    using power_int_increasing [of "e + 1" "ilog b q" ?B] B by (cases "ilog b q < e + 1") auto
  have "?B powi e < ?B powi (ilog b q + 1)" using i(2) assms(2) by simp
  then have 2: "e < ilog b q + 1"
    using power_int_increasing [of "ilog b q + 1" e ?B] B by (cases "e < ilog b q + 1") auto
  from 1 2 show ?thesis by simp
qed

lemma round_half_even_of_int [simp]: "round_half_even (of_int n) = n"
  by (simp add: round_half_even_def)

lemma round_half_even_lower: "of_int a \<le> r \<Longrightarrow> a \<le> round_half_even r"
proof -
  assume "of_int a \<le> r"
  then have "a \<le> \<lfloor>r\<rfloor>" by (simp add: le_floor_iff)
  then show ?thesis by (auto simp: round_half_even_def Let_def)
qed

lemma round_half_even_upper: "r \<le> of_int b \<Longrightarrow> round_half_even r \<le> b"
proof -
  assume a: "r \<le> of_int b"
  then have f: "\<lfloor>r\<rfloor> \<le> b" by (simp add: floor_le_iff) 
  show ?thesis
  proof (cases "r = of_int \<lfloor>r\<rfloor>")
    case True
    then have "round_half_even r = \<lfloor>r\<rfloor>" by (metis round_half_even_of_int)
    with f show ?thesis by simp
  next
    case False
    have "of_int \<lfloor>r\<rfloor> < r"
      using False of_int_floor_le [of r] by (simp only: less_le) auto
    with a have "of_int \<lfloor>r\<rfloor> < (of_int b :: rat)" by simp
    then have "\<lfloor>r\<rfloor> < b" by simp
    then show ?thesis by (auto simp: round_half_even_def Let_def)
  qed
qed

lemma two_powi_pos [simp]: "0 < (2::rat) powi e"
  by simp

lemma scaled_div: "(of_int n * 2 powi u) / (2::rat) powi u = of_int n"
  by simp

lemma round_mag_exact:
  assumes "is_double (MFin n u)"
  shows "round_mag (of_int n * 2 powi u) = MFin n u"
proof -
  let ?q = "of_int n * 2 powi u :: rat"
  from assms consider (normal) "2 ^ 52 \<le> n" "n < 2 ^ 53" "- 1074 \<le> u" "u \<le> 971"
    | (sub) "0 < n" "n < 2 ^ 52" "u = - 1074"
    by (auto simp: is_double_def)
  then show ?thesis
  proof cases
    case normal
    have n0: "0 < n" using normal(1) by simp
    then have qpos: "0 < ?q" by simp
    have "(2::rat) powi (52 + u) = 2 ^ 52 * 2 powi u" by (simp add: power_int_add)
    also have "\<dots> \<le> of_int n * 2 powi u"
    proof (rule mult_right_mono)
      have "(of_int (2 ^ 52) :: rat) \<le> of_int n" using normal(1) by (simp only: of_int_le_iff)
      then show "(2::rat) ^ 52 \<le> of_int n" by simp
    qed simp
    finally have lo: "of_nat 2 powi (52 + u) \<le> ?q" by simp
    have "?q < 2 ^ 53 * 2 powi u"
    proof (rule mult_strict_right_mono)
      have "(of_int n :: rat) < of_int (2 ^ 53)" using normal(2) by (simp only: of_int_less_iff)
      then show "(of_int n :: rat) < 2 ^ 53" by simp
    qed simp
    also have "\<dots> = (2::rat) powi (52 + u + 1)" by (simp add: power_int_add)
    finally have hi: "?q < of_nat 2 powi (52 + u + 1)" by simp
    have E: "ilog 2 ?q = 52 + u" by (rule ilog_unique [OF _ lo hi]) simp
    have u0: "max (52 + u) (- 1022) - 52 = u" using normal(3) by simp
    have nq: "\<not> ?q \<le> 0" using qpos by (simp only: not_le)
    have f: "n \<noteq> 0" "n \<noteq> 9007199254740992" "\<not> 971 < u" using n0 normal by auto
    show ?thesis
      by (simp add: round_mag_def Let_def E u0 nq f del: power_int_add_numeral power_int_add_numeral2)
  next
    case sub
    then have qpos: "0 < ?q" by simp
    have "?q < 2 ^ 52 * 2 powi u"
    proof (rule mult_strict_right_mono)
      have "(of_int n :: rat) < of_int (2 ^ 52)" using sub(2) by (simp only: of_int_less_iff)
      then show "(of_int n :: rat) < 2 ^ 52" by simp
    qed simp
    also have "\<dots> = (2::rat) powi (- 1022)" unfolding sub(3) by (simp add: power_int_minus field_simps)
    finally have hi: "?q < 2 powi (- 1022)" .
    have "of_nat 2 powi (ilog 2 ?q) \<le> ?q" using ilog_bounds [of 2 ?q] qpos by simp
    with hi have "(2::rat) powi (ilog 2 ?q) < 2 powi (- 1022)" by simp
    then have E: "ilog 2 ?q < - 1022"
      using power_int_increasing [of "- 1022" "ilog 2 ?q" "2::rat"]
      by (cases "ilog 2 ?q < - 1022") auto
    then have u0: "max (ilog 2 ?q) (- 1022) - 52 = u" using sub(3) by simp
    have nq: "\<not> ?q \<le> 0" using qpos by (simp only: not_le)
    have f: "n \<noteq> 0" "n \<noteq> 9007199254740992" "\<not> 971 < u" using sub by auto
    show ?thesis
      by (simp add: round_mag_def Let_def u0 nq f del: power_int_add_numeral power_int_add_numeral2)
  qed
qed

lemma round_mag_is_double: "is_double (round_mag q)"
proof (cases "q \<le> 0")
  case True
  then show ?thesis by (simp add: round_mag_def is_double_def)
next
  case False
  then have qpos: "0 < q" by simp
  define E where "E = ilog 2 q"
  define u0 where "u0 = max E (- 1022) - 52"
  define r where "r = q / 2 powi u0"
  define n0 where "n0 = round_half_even r"
  have b: "2 powi E \<le> q" "q < 2 powi (E + 1)"
    using ilog_bounds [of 2 q] qpos by (simp_all add: E_def)
  have rpos: "0 < r" using qpos by (simp add: r_def)
  have ulow: "- 1074 \<le> u0" by (simp add: u0_def)
  have n_nonneg: "0 \<le> n0"
    unfolding n0_def using rpos by (intro round_half_even_lower) simp
  have rm: "round_mag q =
      (if n0 = 0 then MZero
       else if n0 = 2 ^ 53 then (if 970 < u0 then MInf else MFin (2 ^ 52) (u0 + 1))
       else if 971 < u0 then MInf
       else MFin n0 u0)"
    by (simp only: round_mag_def Let_def n0_def r_def u0_def E_def False if_False)
  show ?thesis
  proof (cases "- 1022 \<le> E")
    case True
    then have u0: "u0 = E - 52" by (simp add: u0_def)
    have split: "(2::rat) powi E = 2 ^ 52 * 2 powi u0"
      unfolding u0 by (simp add: power_int_diff)
    have split': "(2::rat) powi (E + 1) = 2 ^ 53 * 2 powi u0"
      unfolding u0 by (simp add: power_int_diff power_int_add)
    have "2 ^ 52 \<le> r"
      unfolding r_def using b(1) split by (simp add: pos_le_divide_eq)
    then have "of_int (2 ^ 52) \<le> r" by simp
    then have lo: "2 ^ 52 \<le> n0" unfolding n0_def by (rule round_half_even_lower)
    have "r < 2 ^ 53"
      unfolding r_def using b(2) split' by (simp add: pos_divide_less_eq)
    then have "r \<le> of_int (2 ^ 53)" by simp
    then have hi: "n0 \<le> 2 ^ 53" unfolding n0_def by (rule round_half_even_upper)
    show ?thesis
      unfolding rm using lo hi ulow by (auto simp: is_double_def)
  next
    case False
    then have u0: "u0 = - 1074" by (simp add: u0_def)
    have "(2::rat) powi (E + 1) \<le> 2 powi (- 1022)"
      using False by (intro power_int_increasing) auto
    with b(2) have "q < 2 powi (- 1022)" by simp
    also have "(2::rat) powi (- 1022) = 2 ^ 52 * 2 powi u0"
      unfolding u0 by (simp add: power_int_minus field_simps)
    finally have "r < 2 ^ 52" unfolding r_def by (simp add: pos_divide_less_eq)
    then have "r \<le> of_int (2 ^ 52)" by simp
    then have hi: "n0 \<le> 2 ^ 52" unfolding n0_def by (rule round_half_even_upper)
    show ?thesis
      unfolding rm using n_nonneg hi u0 by (auto simp: is_double_def)
  qed
qed

subsection \<open>The printed decimal converts back\<close>

lemma round_mag_overflow:
  assumes "2 ^ 1024 \<le> q"
  shows "round_mag q = MInf"
proof -
  have qpos: "0 < q" using assms by (rule less_le_trans [rotated]) simp
  define E where "E = ilog 2 q"
  define u0 where "u0 = max E (- 1022) - 52"
  define n0 where "n0 = round_half_even (q / 2 powi u0)"
  have b: "2 powi E \<le> q" "q < 2 powi (E + 1)"
    using ilog_bounds [of 2 q] qpos by (simp_all add: E_def)
  have "(2::rat) powi 1024 < 2 powi (E + 1)" using assms b(2) by simp
  then have E: "1024 \<le> E"
    using power_int_increasing [of "E + 1" 1024 "2::rat"] by (cases "1024 \<le> E") auto
  then have u0: "u0 = E - 52" "971 < u0" "970 < u0" by (simp_all add: u0_def)
  have "(2::rat) powi E = 2 ^ 52 * 2 powi u0"
    unfolding u0 by (simp add: power_int_diff)
  with b(1) have "2 ^ 52 \<le> q / 2 powi u0" by (simp add: pos_le_divide_eq)
  then have "of_int (2 ^ 52) \<le> q / 2 powi u0" by simp
  then have "2 ^ 52 \<le> n0" unfolding n0_def by (rule round_half_even_lower)
  then have n0: "n0 \<noteq> 0" by simp
  have nq: "\<not> q \<le> 0" using qpos by simp
  have "round_mag q =
      (if n0 = 0 then MZero
       else if n0 = 2 ^ 53 then (if 970 < u0 then MInf else MFin (2 ^ 52) (u0 + 1))
       else if 971 < u0 then MInf
       else MFin n0 u0)"
    by (simp only: round_mag_def Let_def n0_def u0_def E_def nq if_False)
  then show ?thesis using n0 u0 by simp
qed

lemma dec_value_exact_decimal:
  "dec_value (exact_decimal (MFin n u)) = of_int n * 2 powi u"
proof (cases "0 \<le> u")
  case True
  then show ?thesis
    by (simp add: exact_decimal_def dec_value_def power_int_nonneg_exp)
next
  case False
  define k where "k = nat (- u)"
  have u: "u = - int k" using False by (simp add: k_def)
  have "(10::rat) ^ k = 2 ^ k * 5 ^ k" by (simp flip: power_mult_distrib)
  then show ?thesis
    using False unfolding u
    by (simp add: exact_decimal_def dec_value_def power_int_minus field_simps)
qed

lemma pick_sound: "pick x k = Some c \<Longrightarrow> round_mag (dec_value c) = x"
  by (auto simp: pick_def Let_def split: if_splits)

lemma shortest_sound:
  assumes "is_double (MFin n u)"
  shows "round_mag (dec_value (shortest (MFin n u) k fuel)) = MFin n u"
proof (induction fuel arbitrary: k)
  case 0
  show ?case
    by (simp add: dec_value_exact_decimal round_mag_exact [OF assms])
next
  case (Suc fuel)
  show ?case
  proof (cases "pick (MFin n u) k")
    case None
    then show ?thesis using Suc by simp
  next
    case (Some c)
    then show ?thesis using pick_sound [OF Some] by simp
  qed
qed

lemma dec_value_strip10: "dec_value (strip10 s p) = dec_value (s, p)"
proof (induction s p rule: strip10.induct)
  case (1 s p)
  show ?case
  proof (cases "s \<noteq> 0 \<and> s mod 10 = 0")
    case True
    then have s: "s = 10 * (s div 10)" by auto
    have "dec_value (strip10 s p) = dec_value (s div 10, p + 1)"
      using True "1.IH" by (subst strip10.simps) simp
    also have "\<dots> = of_int (s div 10) * (10 powi p * 10)"
      by (simp add: dec_value_def power_int_add)
    also have "\<dots> = of_int (10 * (s div 10)) * 10 powi p" by simp
    also have "\<dots> = dec_value (s, p)" using s by (simp add: dec_value_def)
    finally show ?thesis .
  next
    case False
    then show ?thesis by (subst strip10.simps) auto
  qed
qed

lemma shortest_decimal_sound:
  assumes "is_double (MFin n u)"
  shows "round_mag (dec_value (shortest_decimal (MFin n u))) = MFin n u"
proof -
  obtain s p where sp: "shortest (MFin n u) 1 17 = (s, p)"
    by (cases "shortest (MFin n u) 1 17")
  have "shortest_decimal (MFin n u) = strip10 s p"
    by (simp only: shortest_decimal_def sp prod.case)
  then have "dec_value (shortest_decimal (MFin n u)) = dec_value (shortest (MFin n u) 1 17)"
    by (simp only: dec_value_strip10 sp)
  then show ?thesis by (simp only: shortest_sound [OF assms])
qed

lemma round_mag_nonpos: "q \<le> 0 \<Longrightarrow> round_mag q = MZero"
  by (simp add: round_mag_def)

lemma shortest_decimal_pos:
  assumes "is_double (MFin n u)"
  shows "0 < fst (shortest_decimal (MFin n u))"
proof (rule ccontr)
  assume "\<not> 0 < fst (shortest_decimal (MFin n u))"
  then have "dec_value (shortest_decimal (MFin n u)) \<le> 0"
    by (simp add: dec_value_def mult_le_0_iff)
  then have "round_mag (dec_value (shortest_decimal (MFin n u))) = MZero"
    by (rule round_mag_nonpos)
  with shortest_decimal_sound [OF assms] show False by simp
qed

subsection \<open>Decimal digits\<close>

lemma digits_of_nonempty: "digits_of n \<noteq> []"
  by (subst digits_of.simps) simp

lemma digit_cases:
  fixes d :: int
  assumes "0 \<le> d" "d < 10"
  shows "d = 0 \<or> d = 1 \<or> d = 2 \<or> d = 3 \<or> d = 4 \<or> d = 5 \<or> d = 6 \<or> d = 7 \<or> d = 8 \<or> d = 9"
  using assms by presburger

lemma digit_char_props:
  assumes "0 \<le> d" "d < 10"
  shows "is_digit (digit_char d)" "digit_val (digit_char d) = d" "digit_char d = ZERO \<longleftrightarrow> d = 0"
  using digit_cases [OF assms]
  by (elim disjE; simp add: is_digit_def digit_char_def digit_val_def)+

lemma int_of_digits_Nil [simp]: "int_of_digits [] = 0"
  by (simp add: int_of_digits_def)

lemma int_of_digits_snoc [simp]: "int_of_digits (xs @ [c]) = 10 * int_of_digits xs + digit_val c"
  by (simp add: int_of_digits_def)

lemma int_of_digits_append:
  "int_of_digits (xs @ ys) = int_of_digits xs * 10 ^ length ys + int_of_digits ys"
proof (induction ys rule: rev_induct)
  case Nil
  show ?case by simp
next
  case (snoc y ys)
  have "int_of_digits (xs @ ys @ [y]) = 10 * int_of_digits (xs @ ys) + digit_val y"
    using int_of_digits_snoc [of "xs @ ys" y] by simp
  then show ?case using snoc by (simp add: algebra_simps)
qed

lemma digit_val_ZERO [simp]: "digit_val ZERO = 0"
  by (simp add: digit_val_def)

lemma int_of_digits_zeros [simp]: "int_of_digits (replicate k ZERO) = 0"
proof (induction k)
  case 0
  show ?case by simp
next
  case (Suc k)
  have "replicate (Suc k) ZERO = replicate k ZERO @ [ZERO]"
    by (simp add: replicate_append_same)
  then show ?case using Suc by (simp only: int_of_digits_snoc) simp
qed

lemma is_digit_ZERO [simp]: "is_digit ZERO"
  by (simp add: is_digit_def)

lemma digits_of_props:
  "0 \<le> n \<Longrightarrow> list_all is_digit (digits_of n) \<and> int_of_digits (digits_of n) = n"
proof (induction n rule: digits_of.induct)
  case (1 n)
  show ?case
  proof (cases "n < 10")
    case True
    have "digits_of n = [digit_char n]" using True by (subst digits_of.simps) simp
    moreover have "int_of_digits [digit_char n] = 10 * int_of_digits [] + digit_val (digit_char n)"
      using int_of_digits_snoc [of "[]" "digit_char n"] by simp
    ultimately show ?thesis using digit_char_props [OF "1.prems" True] by simp
  next
    case False
    have d: "digits_of n = digits_of (n div 10) @ [digit_char (n mod 10)]"
      using False by (subst digits_of.simps) simp
    have m: "0 \<le> n mod 10" "n mod 10 < 10" by simp_all
    have "0 \<le> n div 10" using "1.prems" by simp
    with "1.IH" [OF False] have
      ih: "list_all is_digit (digits_of (n div 10))" "int_of_digits (digits_of (n div 10)) = n div 10"
      by auto
    show ?thesis
      unfolding d using ih digit_char_props [OF m] by simp
  qed
qed

lemma hd_digits_of: "0 < n \<Longrightarrow> hd (digits_of n) \<noteq> ZERO"
proof (induction n rule: digits_of.induct)
  case (1 n)
  show ?case
  proof (cases "n < 10")
    case True
    have "digits_of n = [digit_char n]" using True by (subst digits_of.simps) simp
    moreover have "digit_char n \<noteq> ZERO"
      using digit_char_props(3) [of n] "1.prems" True by simp
    ultimately show ?thesis by simp
  next
    case False
    have d: "digits_of n = digits_of (n div 10) @ [digit_char (n mod 10)]"
      using False by (subst digits_of.simps) simp
    have "0 < n div 10" using False by simp
    with "1.IH" [OF False] have "hd (digits_of (n div 10)) \<noteq> ZERO" by simp
    then show ?thesis unfolding d by (simp add: digits_of_nonempty)
  qed
qed

subsection \<open>Reading a printed number\<close>

lemma lex_digits_append:
  assumes "list_all is_digit ds" "cs = [] \<or> \<not> is_digit (hd cs)"
  shows "lex_digits (ds @ cs) = (ds, cs)"
proof -
  have p: "\<And>x. x \<in> set ds \<Longrightarrow> is_digit x" using assms(1) by (simp add: list_all_iff)
  have t: "takeWhile is_digit cs = []" using assms(2) by (cases cs) auto
  have d: "dropWhile is_digit cs = cs" using assms(2) by (cases cs) auto
  show ?thesis
    by (simp add: lex_digits_def takeWhile_append2 [OF p] dropWhile_append2 [OF p] t d)
qed

lemma lex_int_digits:
  assumes "list_all is_digit ip" "ip \<noteq> []" "hd ip = ZERO \<longrightarrow> length ip = 1"
    and "cs = [] \<or> \<not> is_digit (hd cs)"
  shows "lex_int (ip @ cs) = Some (ip, cs)"
  using assms(2,3) by (auto simp: lex_int_def lex_digits_append [OF assms(1,4)])

lemma lex_frac_none: "cs = [] \<or> hd cs \<noteq> DOT \<Longrightarrow> lex_frac cs = Some ([], cs)"
  by (auto simp: lex_frac_def)

lemma lex_frac_digits:
  assumes "list_all is_digit fp" "fp \<noteq> []" "cs = [] \<or> \<not> is_digit (hd cs)"
  shows "lex_frac (DOT # fp @ cs) = Some (fp, cs)"
  using assms(2) by (simp add: lex_frac_def lex_digits_append [OF assms(1,3)])

lemma lex_exp_none:
  "cs = [] \<or> (hd cs \<noteq> LOWER_E \<and> hd cs \<noteq> UPPER_E) \<Longrightarrow> lex_exp cs = Some (0, cs)"
  by (auto simp: lex_exp_def)

lemma lex_exp_signed:
  assumes "list_all is_digit ep" "ep \<noteq> []" "cs = [] \<or> \<not> is_digit (hd cs)"
    and "sg = MINUS \<or> sg = PLUS"
  shows "lex_exp (LOWER_E # sg # ep @ cs) =
           Some (if sg = MINUS then - int_of_digits ep else int_of_digits ep, cs)"
  using assms(2,4) by (auto simp: lex_exp_def Let_def lex_digits_append [OF assms(1,3)])

lemma lex_number_parts:
  assumes "lex_int body = Some (ip, cs2)" "lex_frac cs2 = Some (fp, cs3)"
    and "lex_exp cs3 = Some (e, cs4)"
  shows "lex_number (MINUS # body) =
           Some (Num True (round_mag (dec_value (int_of_digits (ip @ fp), e - int (length fp)))), cs4)"
    and "body \<noteq> [] \<Longrightarrow> hd body \<noteq> MINUS \<Longrightarrow> lex_number body =
           Some (Num False (round_mag (dec_value (int_of_digits (ip @ fp), e - int (length fp)))), cs4)"
  using assms by (simp_all add: lex_number_def)

lemma not_digit_simps [simp]:
  "\<not> is_digit DOT" "\<not> is_digit LOWER_E" "\<not> is_digit MINUS" "\<not> is_digit PLUS"
  by (simp_all add: is_digit_def)

lemma list_all_take_drop:
  "list_all P xs \<Longrightarrow> list_all P (take n xs) \<and> list_all P (drop n xs)"
  by (auto simp: list_all_iff dest: in_set_takeD in_set_dropD)

lemma dec_value_shift: "dec_value (a * 10 ^ j, 0) = dec_value (a, int j)"
  by (simp add: dec_value_def)

lemma layout_parts:
  assumes s: "0 < s" and rest: "num_end rest"
  shows "\<exists>ip fp e cs2 cs3.
           lex_int (layout (s, p) @ rest) = Some (ip, cs2) \<and>
           lex_frac cs2 = Some (fp, cs3) \<and>
           lex_exp cs3 = Some (e, rest) \<and>
           dec_value (int_of_digits (ip @ fp), e - int (length fp)) = dec_value (s, p)"
proof -
  define ds where "ds = digits_of s"
  define k where "k = int (length ds)"
  define n where "n = p + k"
  have D: "list_all is_digit ds" "int_of_digits ds = s" "ds \<noteq> []" "hd ds \<noteq> ZERO"
    using digits_of_props [of s] hd_digits_of [OF s] digits_of_nonempty [of s] s
    by (simp_all add: ds_def)
  have kpos: "1 \<le> k" using D(3) by (cases ds) (simp_all add: k_def)
  have LO: "layout (s, p) =
     (if - 5 \<le> n \<and> n \<le> 21 then
        (if k \<le> n then ds @ replicate (nat (n - k)) ZERO
         else if 0 < n then take (nat n) ds @ [DOT] @ drop (nat n) ds
         else [ZERO, DOT] @ replicate (nat (- n)) ZERO @ ds)
      else
        (if k = 1 then ds @ [LOWER_E] @ ((if n - 1 < 0 then MINUS else PLUS) # digits_of \<bar>n - 1\<bar>)
         else take 1 ds @ [DOT] @ drop 1 ds @ [LOWER_E] @
              ((if n - 1 < 0 then MINUS else PLUS) # digits_of \<bar>n - 1\<bar>)))"
    unfolding layout_def Let_def ds_def k_def n_def by simp
  have r1: "rest = [] \<or> \<not> is_digit (hd rest)"
    and r2: "rest = [] \<or> hd rest \<noteq> DOT"
    and r3: "rest = [] \<or> (hd rest \<noteq> LOWER_E \<and> hd rest \<noteq> UPPER_E)"
    using rest by (auto simp: num_end_def)
  consider (A1) "- 5 \<le> n" "n \<le> 21" "k \<le> n"
    | (A2) "- 5 \<le> n" "n \<le> 21" "0 < n" "n < k"
    | (A3) "- 5 \<le> n" "n \<le> 21" "n \<le> 0"
    | (B1) "\<not> (- 5 \<le> n \<and> n \<le> 21)" "k = 1"
    | (B2) "\<not> (- 5 \<le> n \<and> n \<le> 21)" "1 < k"
    using kpos by linarith
  then show ?thesis
  proof cases
    case A1
    define zs where "zs = replicate (nat (n - k)) ZERO"
    have L: "layout (s, p) = ds @ zs"
      unfolding LO using A1 by (simp add: zs_def)
    have ip: "list_all is_digit (ds @ zs)" "ds @ zs \<noteq> []" "hd (ds @ zs) = ZERO \<longrightarrow> length (ds @ zs) = 1"
      using D by (auto simp: zs_def list_all_iff)
    have 1: "lex_int (layout (s, p) @ rest) = Some (ds @ zs, rest)"
      unfolding L using lex_int_digits [OF ip r1] by simp
    have 2: "lex_frac rest = Some ([], rest)" using r2 by (rule lex_frac_none)
    have 3: "lex_exp rest = Some (0, rest)" using r3 by (rule lex_exp_none)
    have "int_of_digits (ds @ zs) = s * 10 ^ nat (n - k)"
      by (simp add: int_of_digits_append D(2) zs_def)
    moreover have "int (nat (n - k)) = p" using A1 by (simp add: n_def)
    ultimately have 4: "dec_value (int_of_digits ((ds @ zs) @ []), 0 - int (length ([]::jsstring))) = dec_value (s, p)"
      using dec_value_shift [of s "nat (n - k)"] by simp
    from 1 2 3 4 show ?thesis by blast
  next
    case A2
    define ip where "ip = take (nat n) ds"
    define fp where "fp = drop (nat n) ds"
    have L: "layout (s, p) = ip @ DOT # fp"
      unfolding LO using A2 by (simp add: ip_def fp_def)
    have len: "nat n < length ds" "0 < nat n" using A2 by (simp_all add: k_def)
    have ipp: "list_all is_digit ip" "ip \<noteq> []" "hd ip = ZERO \<longrightarrow> length ip = 1"
      using D len list_all_take_drop [OF D(1), of "nat n"] by (simp_all add: ip_def hd_take)
    have fpp: "list_all is_digit fp" "fp \<noteq> []"
      using D len list_all_take_drop [OF D(1), of "nat n"] by (simp_all add: fp_def)
    have nd: "DOT # fp @ rest = [] \<or> \<not> is_digit (hd (DOT # fp @ rest))" by simp
    have 1: "lex_int (layout (s, p) @ rest) = Some (ip, DOT # fp @ rest)"
      unfolding L using lex_int_digits [OF ipp nd] by simp
    have 2: "lex_frac (DOT # fp @ rest) = Some (fp, rest)"
      using lex_frac_digits [OF fpp r1] .
    have 3: "lex_exp rest = Some (0, rest)" using r3 by (rule lex_exp_none)
    have "ip @ fp = ds" by (simp add: ip_def fp_def)
    moreover have "0 - int (length fp) = p" using A2 len by (simp add: fp_def n_def k_def)
    ultimately have 4: "dec_value (int_of_digits (ip @ fp), 0 - int (length fp)) = dec_value (s, p)"
      using D(2) by simp
    from 1 2 3 4 show ?thesis by blast
  next
    case A3
    define fp where "fp = replicate (nat (- n)) ZERO @ ds"
    have L: "layout (s, p) = [ZERO] @ DOT # fp"
      unfolding LO using A3 kpos by (simp add: fp_def)
    have ipp: "list_all is_digit [ZERO]" "[ZERO] \<noteq> []" "hd [ZERO] = ZERO \<longrightarrow> length [ZERO] = 1"
      by simp_all
    have fpp: "list_all is_digit fp" "fp \<noteq> []"
      using D by (auto simp: fp_def list_all_iff)
    have nd: "DOT # fp @ rest = [] \<or> \<not> is_digit (hd (DOT # fp @ rest))" by simp
    have 1: "lex_int (layout (s, p) @ rest) = Some ([ZERO], DOT # fp @ rest)"
      unfolding L using lex_int_digits [OF ipp nd] by simp
    have 2: "lex_frac (DOT # fp @ rest) = Some (fp, rest)"
      using lex_frac_digits [OF fpp r1] .
    have 3: "lex_exp rest = Some (0, rest)" using r3 by (rule lex_exp_none)
    have "[ZERO] @ fp = replicate (Suc (nat (- n))) ZERO @ ds" by (simp add: fp_def)
    then have "int_of_digits ([ZERO] @ fp) = s"
      by (simp only: int_of_digits_append int_of_digits_zeros D(2))
    moreover have "0 - int (length fp) = p" using A3 by (simp add: fp_def n_def k_def)
    ultimately have 4: "dec_value (int_of_digits ([ZERO] @ fp), 0 - int (length fp)) = dec_value (s, p)"
      by simp
    from 1 2 3 4 show ?thesis by blast
  next
    case B1
    define e where "e = n - 1"
    define sg where "sg = (if e < 0 then MINUS else PLUS)"
    define ep where "ep = digits_of \<bar>e\<bar>"
    have L: "layout (s, p) = ds @ LOWER_E # sg # ep"
      unfolding LO using B1(2) by (simp add: e_def sg_def ep_def B1(1))
    have ipp: "list_all is_digit ds" "ds \<noteq> []" "hd ds = ZERO \<longrightarrow> length ds = 1"
      using D by simp_all
    have nd: "LOWER_E # sg # ep @ rest = [] \<or> \<not> is_digit (hd (LOWER_E # sg # ep @ rest))" by simp
    have 1: "lex_int (layout (s, p) @ rest) = Some (ds, LOWER_E # sg # ep @ rest)"
      unfolding L using lex_int_digits [OF ipp nd] by simp
    have 2: "lex_frac (LOWER_E # sg # ep @ rest) = Some ([], LOWER_E # sg # ep @ rest)"
      by (rule lex_frac_none) simp
    have epp: "list_all is_digit ep" "ep \<noteq> []" "int_of_digits ep = \<bar>e\<bar>"
      using digits_of_props [of "\<bar>e\<bar>"] digits_of_nonempty [of "\<bar>e\<bar>"] by (simp_all add: ep_def)
    have sgp: "sg = MINUS \<or> sg = PLUS" by (simp add: sg_def)
    have "(if sg = MINUS then - int_of_digits ep else int_of_digits ep) = e"
      by (simp add: sg_def epp(3))
    with lex_exp_signed [OF epp(1,2) r1 sgp]
    have 3: "lex_exp (LOWER_E # sg # ep @ rest) = Some (e, rest)" by simp
    have "e - int (length ([]::jsstring)) = p" using B1 by (simp add: e_def n_def)
    then have 4: "dec_value (int_of_digits (ds @ []), e - int (length ([]::jsstring))) = dec_value (s, p)"
      using D(2) by simp
    from 1 2 3 4 show ?thesis by blast
  next
    case B2
    define e where "e = n - 1"
    define sg where "sg = (if e < 0 then MINUS else PLUS)"
    define ep where "ep = digits_of \<bar>e\<bar>"
    define ip where "ip = take 1 ds"
    define fp where "fp = drop 1 ds"
    have L: "layout (s, p) = ip @ DOT # fp @ LOWER_E # sg # ep"
      unfolding LO using B2(2) by (simp add: e_def sg_def ep_def ip_def fp_def B2(1))
    have len: "1 < length ds" using B2 by (simp add: k_def)
    have ipp: "list_all is_digit ip" "ip \<noteq> []" "hd ip = ZERO \<longrightarrow> length ip = 1"
      using D len list_all_take_drop [OF D(1), of 1] by (simp_all add: ip_def hd_take)
    have fpp: "list_all is_digit fp" "fp \<noteq> []"
      using D len list_all_take_drop [OF D(1), of 1] by (simp_all add: fp_def)
    have nd: "DOT # fp @ LOWER_E # sg # ep @ rest = [] \<or>
        \<not> is_digit (hd (DOT # fp @ LOWER_E # sg # ep @ rest))" by simp
    have 1: "lex_int (layout (s, p) @ rest) = Some (ip, DOT # fp @ LOWER_E # sg # ep @ rest)"
      unfolding L using lex_int_digits [OF ipp nd] by simp
    have ne: "LOWER_E # sg # ep @ rest = [] \<or> \<not> is_digit (hd (LOWER_E # sg # ep @ rest))" by simp
    have 2: "lex_frac (DOT # fp @ LOWER_E # sg # ep @ rest) = Some (fp, LOWER_E # sg # ep @ rest)"
      using lex_frac_digits [OF fpp ne] .
    have epp: "list_all is_digit ep" "ep \<noteq> []" "int_of_digits ep = \<bar>e\<bar>"
      using digits_of_props [of "\<bar>e\<bar>"] digits_of_nonempty [of "\<bar>e\<bar>"] by (simp_all add: ep_def)
    have sgp: "sg = MINUS \<or> sg = PLUS" by (simp add: sg_def)
    have "(if sg = MINUS then - int_of_digits ep else int_of_digits ep) = e"
      by (simp add: sg_def epp(3))
    with lex_exp_signed [OF epp(1,2) r1 sgp]
    have 3: "lex_exp (LOWER_E # sg # ep @ rest) = Some (e, rest)" by simp
    have "ip @ fp = ds" by (simp add: ip_def fp_def)
    moreover have "e - int (length fp) = p" using len by (simp add: e_def n_def k_def fp_def)
    ultimately have 4: "dec_value (int_of_digits (ip @ fp), e - int (length fp)) = dec_value (s, p)"
      using D(2) by simp
    from 1 2 3 4 show ?thesis by blast
  qed
qed

lemma layout_head: "0 < s \<Longrightarrow> layout (s, p) \<noteq> [] \<and> is_digit (hd (layout (s, p)))"
proof -
  assume s: "0 < s"
  define ds where "ds = digits_of s"
  have D: "list_all is_digit ds" "ds \<noteq> []"
    using digits_of_props [of s] digits_of_nonempty [of s] s by (simp_all add: ds_def)
  then have h: "is_digit (hd ds)" by (cases ds) simp_all
  have t: "0 < n \<Longrightarrow> hd (take n ds) = hd ds" for n using D(2) by (cases n; cases ds) simp_all
  show ?thesis
    using D h t
    by (auto simp: layout_def Let_def ds_def [symmetric] hd_append)
qed

lemma lex_number_layout:
  assumes "0 < s" "num_end rest"
  shows "lex_number (layout (s, p) @ rest) = Some (Num False (round_mag (dec_value (s, p))), rest)"
    and "lex_number (MINUS # layout (s, p) @ rest) =
           Some (Num True (round_mag (dec_value (s, p))), rest)"
proof -
  from layout_parts [OF assms, of p] obtain ip fp e cs2 cs3 where
    1: "lex_int (layout (s, p) @ rest) = Some (ip, cs2)" and
    2: "lex_frac cs2 = Some (fp, cs3)" and
    3: "lex_exp cs3 = Some (e, rest)" and
    4: "dec_value (int_of_digits (ip @ fp), e - int (length fp)) = dec_value (s, p)"
    by blast
  have h: "layout (s, p) @ rest \<noteq> []" "hd (layout (s, p) @ rest) \<noteq> MINUS"
    using layout_head [OF assms(1), of p] by (auto simp: hd_append)
  show "lex_number (layout (s, p) @ rest) = Some (Num False (round_mag (dec_value (s, p))), rest)"
    using lex_number_parts(2) [OF 1 2 3 h] 4 by simp
  show "lex_number (MINUS # layout (s, p) @ rest) =
           Some (Num True (round_mag (dec_value (s, p))), rest)"
    using lex_number_parts(1) [OF 1 2 3] 4 by simp
qed

subsection \<open>Reading a quoted string\<close>

lemma hex_val_hex_digit: "0 \<le> d \<Longrightarrow> d < 16 \<Longrightarrow> hex_val (hex_digit d) = Some d"
proof -
  assume "0 \<le> d" "d < 16"
  then have "d = 0 \<or> d = 1 \<or> d = 2 \<or> d = 3 \<or> d = 4 \<or> d = 5 \<or> d = 6 \<or> d = 7 \<or>
    d = 8 \<or> d = 9 \<or> d = 10 \<or> d = 11 \<or> d = 12 \<or> d = 13 \<or> d = 14 \<or> d = 15"
    by presburger
  then show ?thesis
    by (elim disjE) (simp_all add: hex_val_def hex_digit_def)
qed

lemma hex_recompose:
  fixes n :: int
  shows "((n div 4096 * 16 + n div 256 mod 16) * 16 + n div 16 mod 16) * 16 + n mod 16 = n"
proof -
  have b: "n div 256 = n div 16 div 16" by (simp add: zdiv_zmult2_eq)
  have c: "n div 4096 = n div 16 div 16 div 16" by (simp add: zdiv_zmult2_eq)
  have "n div 16 div 16 div 16 * 16 + n div 16 div 16 mod 16 = n div 16 div 16" by simp
  moreover have "n div 16 div 16 * 16 + n div 16 mod 16 = n div 16" by simp
  moreover have "n div 16 * 16 + n mod 16 = n" by simp
  ultimately show ?thesis unfolding b c by (simp only:)
qed

lemma hex4_unicode_escape:
  "unicode_escape c = [BACKSLASH, LOWER_U, h1, h2, h3, h4] \<Longrightarrow> hex4 h1 h2 h3 h4 = Some c"
proof -
  assume a: "unicode_escape c = [BACKSLASH, LOWER_U, h1, h2, h3, h4]"
  define n where "n = uint c"
  have n: "0 \<le> n" "n < 65536" using uint_lt2p [of c] by (auto simp: n_def)
  have h: "h1 = hex_digit (n div 4096)" "h2 = hex_digit (n div 256 mod 16)"
    "h3 = hex_digit (n div 16 mod 16)" "h4 = hex_digit (n mod 16)"
    using a by (auto simp: unicode_escape_def Let_def n_def)
  have v1: "hex_val h1 = Some (n div 4096)" unfolding h using n by (intro hex_val_hex_digit) auto
  have v2: "hex_val h2 = Some (n div 256 mod 16)" unfolding h by (intro hex_val_hex_digit) auto
  have v3: "hex_val h3 = Some (n div 16 mod 16)" unfolding h by (intro hex_val_hex_digit) auto
  have v4: "hex_val h4 = Some (n mod 16)" unfolding h by (intro hex_val_hex_digit) auto
  have "hex4 h1 h2 h3 h4 =
      Some (of_int (((n div 4096 * 16 + n div 256 mod 16) * 16 + n div 16 mod 16) * 16 + n mod 16))"
    unfolding hex4_def v1 v2 v3 v4 by (simp only: option.case)
  then have "hex4 h1 h2 h3 h4 = Some (of_int n)" by (simp only: hex_recompose)
  then show ?thesis by (simp add: n_def)
qed

lemma cons_fst_simps [simp]:
  "cons_fst u None = None"
  "cons_fst u (Some (s, r)) = Some (u # s, r)"
  by (simp_all add: cons_fst_def)

lemma lex_string_plain:
  "c \<noteq> QUOTE \<Longrightarrow> c \<noteq> BACKSLASH \<Longrightarrow> \<not> c < 0x20 \<Longrightarrow>
   lex_string (c # cs) = cons_fst c (lex_string cs)"
  by simp

lemma lex_string_escape_unit: "lex_string (escape_unit c @ cs) = cons_fst c (lex_string cs)"
proof (cases "c = 0x08 \<or> c = 0x09 \<or> c = 0x0A \<or> c = 0x0C \<or> c = 0x0D \<or> c = QUOTE \<or> c = BACKSLASH")
  case True
  then show ?thesis by (elim disjE) (simp_all add: escape_unit_def unescape_def)
next
  case short: False
  show ?thesis
  proof (cases "c < 0x20 \<or> is_lead c \<or> is_trail c")
    case True
    with short have uni: "escape_unit c = unicode_escape c" by (simp add: escape_unit_def)
    obtain h1 h2 h3 h4 where u: "unicode_escape c = [BACKSLASH, LOWER_U, h1, h2, h3, h4]"
      by (simp add: unicode_escape_def Let_def)
    from hex4_unicode_escape [OF u] show ?thesis by (simp add: uni u)
  next
    case False
    with short have "escape_unit c = [c]" by (simp add: escape_unit_def)
    with short False show ?thesis by simp
  qed
qed

lemma surrogate_not_control: "0xD800 \<le> (c::u16) \<Longrightarrow> \<not> c < 0x20"
proof
  assume "0xD800 \<le> c" "c < 0x20"
  then have "(0xD800::u16) < 0x20" by (rule order_le_less_trans)
  then show False by simp
qed

lemma lex_string_quote_units:
  "lex_string (quote_units s @ QUOTE # rest) = Some (s, rest)"
proof (induction s rule: quote_units.induct)
  case 1
  show ?case by simp
next
  case (2 c)
  have "lex_string (escape_unit c @ QUOTE # rest) = cons_fst c (lex_string (QUOTE # rest))"
    by (rule lex_string_escape_unit)
  then show ?case by simp
next
  case (3 c d cs)
  show ?case
  proof (cases "is_lead c \<and> is_trail d")
    case True
    then have lc: "0xD800 \<le> c" and td: "0xDC00 \<le> d"
      by (auto simp: is_lead_def is_trail_def)
    have ld: "0xD800 \<le> d" by (rule order_trans [OF _ td]) simp
    have c: "c \<noteq> QUOTE" "c \<noteq> BACKSLASH" "\<not> c < 0x20"
      and d: "d \<noteq> QUOTE" "d \<noteq> BACKSLASH" "\<not> d < 0x20"
      using lc ld surrogate_not_control [of c] surrogate_not_control [of d] by auto
    have q: "quote_units (c # d # cs) = c # d # quote_units cs"
      using True by simp
    have ih: "lex_string (quote_units cs @ QUOTE # rest) = Some (cs, rest)"
      using "3.IH"(1) True by blast
    show ?thesis
      unfolding q append_Cons lex_string_plain [OF c] lex_string_plain [OF d] ih
      by simp
  next
    case False
    have q: "quote_units (c # d # cs) = escape_unit c @ quote_units (d # cs)"
      by (simp only: quote_units.simps False if_False)
    have ih: "lex_string (quote_units (d # cs) @ QUOTE # rest) = Some (d # cs, rest)"
      using "3.IH"(2) False by blast
    show ?thesis
      unfolding q append_assoc lex_string_escape_unit ih by simp
  qed
qed

subsection \<open>The tokens of a serialization\<close>

text \<open>
  \<open>lexes text ts\<close>: in front of any text that cannot continue a number, \<open>text\<close>
  contributes exactly the tokens \<open>ts\<close>.
\<close>

definition lexes :: "jsstring \<Rightarrow> token list \<Rightarrow> bool" where
  "lexes text ts \<longleftrightarrow>
     (\<forall>rest ts'. num_end rest \<longrightarrow> lex_json rest = Some ts' \<longrightarrow>
        lex_json (text @ rest) = Some (ts @ ts'))"

lemma lex_json_ws: "list_all is_json_ws ws \<Longrightarrow> lex_json (ws @ cs) = lex_json cs"
  by (induction ws) simp_all

lemma lex_json_punct:
  "lex_json (LBRACE # cs) = map_option (Cons TLBrace) (lex_json cs)"
  "lex_json (RBRACE # cs) = map_option (Cons TRBrace) (lex_json cs)"
  "lex_json (LBRACKET # cs) = map_option (Cons TLBracket) (lex_json cs)"
  "lex_json (RBRACKET # cs) = map_option (Cons TRBracket) (lex_json cs)"
  "lex_json (COLON # cs) = map_option (Cons TColon) (lex_json cs)"
  "lex_json (COMMA # cs) = map_option (Cons TComma) (lex_json cs)"
  by (simp_all add: is_json_ws_def)

lemma lex_json_space: "lex_json (SPACE # cs) = lex_json cs" "lex_json (NL # cs) = lex_json cs"
  by (simp_all add: is_json_ws_def)

lemma lex_json_literals:
  "lex_json (js ''null'' @ cs) = map_option (Cons TNull) (lex_json cs)"
  "lex_json (js ''true'' @ cs) = map_option (Cons TTrue) (lex_json cs)"
  "lex_json (js ''false'' @ cs) = map_option (Cons TFalse) (lex_json cs)"
  by (simp_all add: js_def is_json_ws_def is_digit_def startsWith_def)

lemma lex_json_string:
  "lex_json (QuoteJSONString s @ cs) = map_option (Cons (TStr s)) (lex_json cs)"
  by (simp add: QuoteJSONString_def is_json_ws_def lex_string_quote_units)

lemma lex_json_digit:
  assumes "is_digit c \<or> c = MINUS"
  shows "lex_json (c # cs) =
           (case lex_number (c # cs) of None \<Rightarrow> None
            | Some (x, r) \<Rightarrow> map_option (Cons (TNum x)) (lex_json r))"
proof -
  have "(48 \<le> uint c \<and> uint c \<le> 57) \<or> uint c = 45"
    using assms by (auto simp: is_digit_def word_le_def)
  then have "\<not> is_json_ws c" "c \<noteq> LBRACE" "c \<noteq> RBRACE" "c \<noteq> LBRACKET" "c \<noteq> RBRACKET"
    "c \<noteq> COLON" "c \<noteq> COMMA" "c \<noteq> QUOTE"
    by (auto simp: is_json_ws_def)
  then show ?thesis using assms by auto
qed

lemma lex_json_number:
  assumes "is_double (mag x)" "mag x \<noteq> MInf" "num_end rest"
  shows "lex_json (Number_toString x @ rest) =
           map_option (Cons (TNum (if mag x = MZero then Num False MZero else x))) (lex_json rest)"
proof (cases "mag x = MZero")
  case True
  have r: "rest = [] \<or> \<not> is_digit (hd rest)" "rest = [] \<or> hd rest \<noteq> DOT"
    "rest = [] \<or> (hd rest \<noteq> LOWER_E \<and> hd rest \<noteq> UPPER_E)"
    using assms(3) by (auto simp: num_end_def)
  have 1: "lex_int ([ZERO] @ rest) = Some ([ZERO], rest)"
    by (rule lex_int_digits [OF _ _ _ r(1)]) simp_all
  have 2: "lex_frac rest = Some ([], rest)" using r(2) by (rule lex_frac_none)
  have 3: "lex_exp rest = Some (0, rest)" using r(3) by (rule lex_exp_none)
  have "lex_number ([ZERO] @ rest) =
      Some (Num False (round_mag (dec_value (int_of_digits ([ZERO] @ []), 0 - int (length ([]::jsstring))))), rest)"
    by (rule lex_number_parts(2) [OF 1 2 3]) simp_all
  moreover have "int_of_digits [ZERO] = 0"
    using int_of_digits_snoc [of "[]" ZERO] by simp
  ultimately have "lex_number (ZERO # rest) = Some (Num False MZero, rest)"
    by (simp add: dec_value_def round_mag_def)
  then show ?thesis
    using True lex_json_digit [of ZERO rest] by (simp add: Number_toString_def js_def)
next
  case False
  with assms(2) obtain n u where m: "mag x = MFin n u" by (cases "mag x") auto
  with assms(1) have d: "is_double (MFin n u)" by simp
  obtain s p where sp: "shortest_decimal (MFin n u) = (s, p)"
    by (cases "shortest_decimal (MFin n u)")
  have s: "0 < s" using shortest_decimal_pos [OF d] sp by simp
  have v: "round_mag (dec_value (s, p)) = MFin n u" using shortest_decimal_sound [OF d] sp by simp
  have x: "x = Num (negative x) (MFin n u)" using m by (cases x) simp
  show ?thesis
  proof (cases "negative x")
    case True
    have "lex_number (MINUS # layout (s, p) @ rest) = Some (x, rest)"
      using lex_number_layout(2) [OF s assms(3), of p] v x True by simp
    then show ?thesis
      using lex_json_digit [of MINUS "layout (s, p) @ rest"] True False m
      by (simp add: Number_toString_def sp)
  next
    case nn: False
    have lx: "lex_number (layout (s, p) @ rest) = Some (x, rest)"
      using lex_number_layout(1) [OF s assms(3), of p] v x nn by simp
    obtain c cs where l: "layout (s, p) = c # cs" "is_digit c"
      using layout_head [OF s, of p] by (cases "layout (s, p)") auto
    show ?thesis
      using lex_json_digit [of c "cs @ rest"] lx l nn False m
      by (simp add: Number_toString_def sp)
  qed
qed

declare lex_json.simps(2) [simp del]

lemma lexesD:
  "lexes text ts \<Longrightarrow> num_end rest \<Longrightarrow> lex_json rest = Some ts' \<Longrightarrow>
   lex_json (text @ rest) = Some (ts @ ts')"
  by (simp add: lexes_def)

lemma num_end_simps [simp]:
  "num_end []" "num_end (COMMA # cs)" "num_end (NL # cs)" "num_end (RBRACKET # cs)"
  "num_end (RBRACE # cs)"
  by (simp_all add: num_end_def is_digit_def)

lemma lex_json_join:
  assumes "list_all2 lexes parts tss" "parts \<noteq> []" "list_all is_json_ws w"
    and "num_end rest" "lex_json rest = Some ts"
  shows "lex_json (join (COMMA # w) parts @ rest) = Some (join [TComma] tss @ ts)"
  using assms(1,2)
proof (induction parts tss rule: list_all2_induct)
  case Nil
  then show ?case by simp
next
  case (Cons p ps t tss)
  show ?case
  proof (cases ps)
    case Nil
    with Cons.hyps(2) have "tss = []" by simp
    with Nil show ?thesis using lexesD [OF Cons.hyps(1) assms(4,5)] by simp
  next
    case (Cons q qs)
    with Cons.hyps(2) obtain u us where tss: "tss = u # us" by (cases tss) auto
    have ih: "lex_json (join (COMMA # w) ps @ rest) = Some (join [TComma] tss @ ts)"
      using Cons.IH Cons by simp
    have "lex_json ((COMMA # w) @ join (COMMA # w) ps @ rest) = Some (TComma # join [TComma] tss @ ts)"
      using ih by (simp add: lex_json_punct lex_json_ws [OF assms(3)])
    then have "lex_json (p @ (COMMA # w) @ join (COMMA # w) ps @ rest) =
        Some (t @ TComma # join [TComma] tss @ ts)"
      using lexesD [OF Cons.hyps(1), of "(COMMA # w) @ join (COMMA # w) ps @ rest"] by simp
    then show ?thesis using Cons tss by simp
  qed
qed

lemma lex_json_wrap:
  assumes parts: "list_all2 lexes parts tss"
    and ws: "list_all is_json_ws gap" "list_all is_json_ws ind"
    and opn: "\<And>cs. lex_json (opn # cs) = map_option (Cons topn) (lex_json cs)"
    and cls: "\<And>cs. lex_json (cls # cs) = map_option (Cons tcls) (lex_json cs)"
      "\<And>cs. num_end (cls # cs)"
  shows "lexes (wrap opn cls gap ind parts) ([topn] @ join [TComma] tss @ [tcls])"
  unfolding lexes_def
proof (intro allI impI)
  fix rest ts
  assume rest: "num_end rest" "lex_json rest = Some ts"
  have c: "lex_json (cls # rest) = Some (tcls # ts)" using rest(2) by (simp add: cls(1))
  show "lex_json (wrap opn cls gap ind parts @ rest) =
      Some (([topn] @ join [TComma] tss @ [tcls]) @ ts)"
  proof (cases "parts = []")
    case True
    with parts have "tss = []" by simp
    with True c show ?thesis by (simp add: wrap_def opn)
  next
    case ne: False
    show ?thesis
    proof (cases "gap = []")
      case True
      have "lex_json (join (COMMA # []) parts @ cls # rest) = Some (join [TComma] tss @ tcls # ts)"
        by (rule lex_json_join [OF parts ne _ cls(2) c]) simp
      then show ?thesis using ne True by (simp add: wrap_def opn)
    next
      case False
      have w: "list_all is_json_ws (NL # ind @ gap)" using ws by (simp add: is_json_ws_def)
      have e: "num_end (NL # ind @ cls # rest)" by simp
      have "lex_json (NL # ind @ cls # rest) = Some (tcls # ts)"
        using c lex_json_ws [OF ws(2), of "cls # rest"] by (simp add: lex_json_space)
      then have "lex_json (join (COMMA # NL # ind @ gap) parts @ NL # ind @ cls # rest) =
          Some (join [TComma] tss @ tcls # ts)"
        by (rule lex_json_join [OF parts ne w e])
      then have "lex_json ((ind @ gap) @ join (COMMA # NL # ind @ gap) parts @ NL # ind @ cls # rest) =
          Some (join [TComma] tss @ tcls # ts)"
        using lex_json_ws [of "ind @ gap"] ws by simp
      then show ?thesis using ne False by (simp add: wrap_def opn lex_json_space)
    qed
  qed
qed

lemma lexes_member:
  assumes "lexes text ts" "sp = [] \<or> sp = [SPACE]"
  shows "lexes (QuoteJSONString k @ [COLON] @ sp @ text) (TStr k # TColon # ts)"
  using assms
  by (auto simp: lexes_def lex_json_string lex_json_punct lex_json_space)

lemma lex_json_ser:
  "list_all is_json_ws gap \<Longrightarrow> wf_json v \<Longrightarrow> list_all is_json_ws ind \<Longrightarrow>
   lexes (ser gap ind v) (toks (reparsed v))"
proof (induction gap ind v rule: ser.induct)
  case (1 gap ind)
  show ?case by (simp add: lexes_def lex_json_literals)
next
  case (2 gap ind b)
  show ?case by (simp add: lexes_def lex_json_literals)
next
  case (3 gap ind x)
  show ?case
  proof (cases "mag x = MInf")
    case True
    then show ?thesis by (simp add: lexes_def lex_json_literals reparsed_num_def)
  next
    case False
    then show ?thesis
      using 3 by (auto simp: lexes_def lex_json_number reparsed_num_def)
  qed
next
  case (4 gap ind s)
  show ?case by (simp add: lexes_def lex_json_string)
next
  case (5 gap ind xs)
  note gap = "5.prems"(1) and wf = "5.prems"(2) and ind = "5.prems"(3)
  have w: "list_all is_json_ws (ind @ gap)" using gap ind by simp
  have "list_all2 lexes (map (ser gap (ind @ gap)) xs) (map toks (map reparsed xs))"
    unfolding list_all2_map1 list_all2_map2
  proof (rule list_all2_all_nthI)
    show "length xs = length xs" by simp
  next
    fix n assume "n < length xs"
    then have m: "xs ! n \<in> set xs" by simp
    with wf have "wf_json (xs ! n)" by (simp add: list_all_iff)
    with "5.IH" [OF m gap _ w] show "lexes (ser gap (ind @ gap) (xs ! n)) (toks (reparsed (xs ! n)))"
      by simp
  qed
  then have "lexes (wrap LBRACKET RBRACKET gap ind (map (ser gap (ind @ gap)) xs))
      ([TLBracket] @ join [TComma] (map toks (map reparsed xs)) @ [TRBracket])"
    by (rule lex_json_wrap [OF _ gap ind]) (simp_all add: lex_json_punct)
  then show ?case by simp
next
  case (6 gap ind ps)
  note gap = "6.prems"(1) and wf = "6.prems"(2) and ind = "6.prems"(3)
  have w: "list_all is_json_ws (ind @ gap)" using gap ind by simp
  let ?part = "\<lambda>(k, v). QuoteJSONString k @ [COLON] @ (if gap = [] then [] else [SPACE]) @
      ser gap (ind @ gap) v"
  let ?tok = "\<lambda>(k, v). TStr k # TColon # toks v"
  have "list_all2 lexes (map ?part ps) (map ?tok (map (\<lambda>(k, v). (k, reparsed v)) ps))"
    unfolding list_all2_map1 list_all2_map2
  proof (rule list_all2_all_nthI)
    show "length ps = length ps" by simp
  next
    fix n assume n: "n < length ps"
    obtain k v where kv: "ps ! n = (k, v)" by (cases "ps ! n")
    with n have m: "(k, v) \<in> set ps" by (metis nth_mem)
    with wf have "wf_json v" by (auto simp: list_all_iff)
    with "6.IH" [OF m refl gap _ w] have "lexes (ser gap (ind @ gap) v) (toks (reparsed v))"
      by simp
    then show "lexes (?part (ps ! n)) (?tok (case ps ! n of (k, v) \<Rightarrow> (k, reparsed v)))"
      unfolding kv using lexes_member [of _ _ "if gap = [] then [] else [SPACE]" k] by simp
  qed
  then have "lexes (wrap LBRACE RBRACE gap ind (map ?part ps))
      ([TLBrace] @ join [TComma] (map ?tok (map (\<lambda>(k, v). (k, reparsed v)) ps)) @ [TRBrace])"
    by (rule lex_json_wrap [OF _ gap ind]) (simp_all add: lex_json_punct)
  then show ?case by simp
qed

subsection \<open>Parsing the tokens of a value\<close>

lemma keys_ok_prefix: "keys_ok (ks @ ks') \<Longrightarrow> keys_ok ks"
  by (induction ks) (auto split: if_splits)

lemma keys_ok_last:
  "keys_ok (ks @ [k]) \<Longrightarrow>
   k \<notin> set ks \<and>
   (is_array_index k \<longrightarrow>
      list_all (\<lambda>k'. is_array_index k' \<and> int_of_digits k' \<le> int_of_digits k) ks)"
  by (induction ks) (auto split: if_splits)

lemma update_prop_new: "k \<notin> set (map fst ps) \<Longrightarrow> update_prop k v ps = ps @ [(k, v)]"
  by (induction ps) auto

lemma insert_index_end:
  "list_all (\<lambda>k'. is_array_index k' \<and> int_of_digits k' \<le> int_of_digits k) (map fst ps) \<Longrightarrow>
   insert_index k v ps = ps @ [(k, v)]"
  by (induction ps) auto

lemma obj_put_last:
  assumes "keys_ok (map fst ps @ [k])"
  shows "obj_put k v ps = ps @ [(k, v)]"
proof -
  from keys_ok_last [OF assms]
  have new: "k \<notin> set (map fst ps)"
    and idx: "is_array_index k \<longrightarrow>
      list_all (\<lambda>k'. is_array_index k' \<and> int_of_digits k' \<le> int_of_digits k) (map fst ps)"
    by auto
  show ?thesis
  proof (cases "is_array_index k")
    case True
    with idx new show ?thesis by (simp add: obj_put_def insert_index_end)
  next
    case False
    with new show ?thesis by (simp add: obj_put_def update_prop_new)
  qed
qed

lemma join_Cons_concat: "join sep (x # xs) = x @ concat (map (\<lambda>y. sep @ y) xs)"
  by (induction xs arbitrary: x) simp_all

definition comma_toks :: "json \<Rightarrow> token list" where
  "comma_toks y = TComma # toks y"

definition comma_member :: "jsstring \<times> json \<Rightarrow> token list" where
  "comma_member m = TComma # TStr (fst m) # TColon # toks (snd m)"

lemma toks_JArr_Cons:
  "toks (JArr (x # xs)) = TLBracket # toks x @ concat (map comma_toks xs) @ [TRBracket]"
proof -
  have "comma_toks = (\<lambda>y. TComma # toks y)" by (rule ext) (simp add: comma_toks_def)
  then show ?thesis by (simp add: join_Cons_concat o_def)
qed

lemma toks_JObj_Cons:
  "toks (JObj ((k, v) # ps)) =
     TLBrace # TStr k # TColon # toks v @ concat (map comma_member ps) @ [TRBrace]"
proof -
  have "comma_member = (\<lambda>m. TComma # (case m of (k, v) \<Rightarrow> TStr k # TColon # toks v))"
    by (rule ext) (simp add: comma_member_def case_prod_beta)
  then show ?thesis by (simp add: join_Cons_concat o_def)
qed

lemma toks_head: "\<exists>t ts. toks v = t # ts \<and> t \<noteq> TRBracket"
  by (cases v) auto

abbreviation run :: "pstate \<Rightarrow> token list \<Rightarrow> pstate" where
  "run \<equiv> foldl step"

lemma run_PArrFirst:
  "run (PArrFirst stk) (toks x) = run (PValue (FArr [] # stk)) (toks x)"
proof -
  obtain t ts where t: "toks x = t # ts" "t \<noteq> TRBracket" using toks_head by blast
  then show ?thesis by simp
qed

lemma run_elements:
  assumes "\<And>y stk. y \<in> set ys \<Longrightarrow> run (PValue stk) (toks y) = deliver y stk"
  shows "run (PArrNext acc stk) (concat (map comma_toks ys)) = PArrNext (acc @ ys) stk"
  using assms
proof (induction ys arbitrary: acc)
  case Nil
  show ?case by simp
next
  case (Cons y ys)
  have y: "run (PValue (FArr acc # stk)) (toks y) = PArrNext (acc @ [y]) stk"
    using Cons.prems [of y] by simp
  have t: "run (PArrNext (acc @ [y]) stk) (concat (map comma_toks ys)) = PArrNext ((acc @ [y]) @ ys) stk"
    by (rule Cons.IH) (simp add: Cons.prems)
  have h: "concat (map comma_toks (y # ys)) = TComma # toks y @ concat (map comma_toks ys)"
    by (simp add: comma_toks_def)
  show ?case unfolding h by (simp add: y t)
qed

lemma run_members:
  assumes "\<And>k v stk. (k, v) \<in> set qs \<Longrightarrow> run (PValue stk) (toks v) = deliver v stk"
    and "keys_ok (map fst (acc @ qs))"
  shows "run (PObjNext acc stk) (concat (map comma_member qs)) = PObjNext (acc @ qs) stk"
  using assms
proof (induction qs arbitrary: acc)
  case Nil
  show ?case by simp
next
  case (Cons q qs)
  obtain k v where q: "q = (k, v)" by (cases q)
  have "keys_ok (map fst acc @ [k])"
    using Cons.prems(2) keys_ok_prefix [of "map fst acc @ [k]" "map fst qs"] by (simp add: q)
  then have put: "obj_put k v acc = acc @ [(k, v)]" by (rule obj_put_last)
  have v: "run (PValue (FObj acc k # stk)) (toks v) = PObjNext (acc @ [(k, v)]) stk"
    using Cons.prems(1) [of k v] by (simp add: q put)
  have t: "run (PObjNext (acc @ [(k, v)]) stk) (concat (map comma_member qs)) =
      PObjNext ((acc @ [(k, v)]) @ qs) stk"
  proof (rule Cons.IH)
    show "keys_ok (map fst ((acc @ [(k, v)]) @ qs))" using Cons.prems(2) by (simp add: q)
  next
    fix k' v' stk'
    assume "(k', v') \<in> set qs"
    then show "run (PValue stk') (toks v') = deliver v' stk'"
      using Cons.prems(1) [of k' v' stk'] by simp
  qed
  have h: "concat (map comma_member (q # qs)) =
      TComma # TStr k # TColon # toks v @ concat (map comma_member qs)"
    by (simp add: comma_member_def q)
  show ?case unfolding h by (simp add: q v t)
qed

lemma run_toks: "wf_json v \<Longrightarrow> run (PValue stk) (toks v) = deliver v stk"
proof (induction v arbitrary: stk rule: toks.induct)
  case (5 xs)
  show ?case
  proof (cases xs)
    case Nil
    then show ?thesis by simp
  next
    case (Cons x xs')
    have ih: "\<And>y stk. y \<in> set xs \<Longrightarrow> run (PValue stk) (toks y) = deliver y stk"
      using "5.IH" "5.prems" by (simp add: list_all_iff)
    have x: "run (PArrFirst stk) (toks x) = PArrNext [x] stk"
      using run_PArrFirst [of stk x] ih [of x] by (simp add: Cons)
    have t: "run (PArrNext [x] stk) (concat (map comma_toks xs')) = PArrNext ([x] @ xs') stk"
      by (rule run_elements) (simp add: ih Cons)
    show ?thesis
      unfolding Cons toks_JArr_Cons by (simp add: x t)
  qed
next
  case (6 ps)
  show ?case
  proof (cases ps)
    case Nil
    then show ?thesis by simp
  next
    case (Cons p ps')
    obtain k v where p: "p = (k, v)" by (cases p)
    have ih: "\<And>k v stk. (k, v) \<in> set ps \<Longrightarrow> run (PValue stk) (toks v) = deliver v stk"
      using "6.IH" "6.prems" by (auto simp: list_all_iff)
    have ok: "keys_ok (map fst ([(k, v)] @ ps'))" using "6.prems" by (simp add: Cons p)
    have v: "run (PValue (FObj [] k # stk)) (toks v) = PObjNext [(k, v)] stk"
      using ih [of k v] by (simp add: Cons p obj_put_def)
    have t: "run (PObjNext [(k, v)] stk) (concat (map comma_member ps')) = PObjNext ([(k, v)] @ ps') stk"
    proof (rule run_members [OF _ ok])
      fix k' v' stk'
      assume "(k', v') \<in> set ps'"
      then show "run (PValue stk') (toks v') = deliver v' stk'"
        using ih [of k' v' stk'] by (simp add: Cons)
    qed
    show ?thesis
      unfolding Cons p toks_JObj_Cons by (simp add: v t)
  qed
qed simp_all

lemma parse_tokens_toks: "wf_json v \<Longrightarrow> parse_tokens (toks v) = Some v"
  by (simp add: parse_tokens_def run_toks)


subsection \<open>Enumeration order of keys\<close>

lemma keys_update_prop_mem:
  "k \<in> set (map fst ps) \<Longrightarrow> map fst (update_prop k v ps) = map fst ps"
  by (induction ps) auto

lemma keys_ok_snoc_other:
  "keys_ok ks \<Longrightarrow> k \<notin> set ks \<Longrightarrow> \<not> is_array_index k \<Longrightarrow> keys_ok (ks @ [k])"
  by (induction ks) (auto split: if_splits)

lemma set_insert_index:
  "fst ` set (insert_index k v ps) = insert k (fst ` set ps)"
  by (induction ps) auto

lemma keys_ok_insert_index:
  "keys_ok (map fst ps) \<Longrightarrow> k \<notin> set (map fst ps) \<Longrightarrow> is_array_index k \<Longrightarrow>
   keys_ok (map fst (insert_index k v ps))"
proof (induction ps)
  case Nil
  then show ?case by simp
next
  case (Cons p ps)
  let ?a = "fst p"
  from Cons.prems have a: "?a \<notin> set (map fst ps)" "keys_ok (map fst ps)" "?a \<noteq> k"
    "k \<notin> set (map fst ps)"
    by auto
  show ?case
  proof (cases "is_array_index ?a \<and> int_of_digits ?a \<le> int_of_digits k")
    case True
    have "keys_ok (map fst (insert_index k v ps))" using Cons.IH a Cons.prems(3) by simp
    moreover have "?a \<notin> set (map fst (insert_index k v ps))"
      using a by (simp add: set_insert_index)
    moreover have "list_all (\<lambda>k'. is_array_index k' \<longrightarrow> int_of_digits ?a \<le> int_of_digits k')
        (map fst (insert_index k v ps))"
      using Cons.prems(1) True
      by (auto simp: list_all_iff set_insert_index split: if_splits)
    ultimately show ?thesis using True by simp
  next
    case False
    have "list_all (\<lambda>k'. is_array_index k' \<longrightarrow> int_of_digits k \<le> int_of_digits k') (map fst (p # ps))"
      using Cons.prems(1) False
      by (auto simp: list_all_iff split: if_splits)
    then show ?thesis using False Cons.prems by simp
  qed
qed

lemma obj_put_keys_ok: "keys_ok (map fst ps) \<Longrightarrow> keys_ok (map fst (obj_put k v ps))"
proof (cases "k \<in> set (map fst ps)")
  case True
  assume "keys_ok (map fst ps)"
  with True show ?thesis by (simp add: obj_put_def keys_update_prop_mem)
next
  case False
  assume ok: "keys_ok (map fst ps)"
  show ?thesis
  proof (cases "is_array_index k")
    case True
    with False ok show ?thesis by (simp add: obj_put_def keys_ok_insert_index)
  next
    case nonidx: False
    have "update_prop k v ps = ps @ [(k, v)]" using False by (rule update_prop_new)
    with False nonidx ok show ?thesis
      using keys_ok_snoc_other [of "map fst ps" k] by (simp add: obj_put_def)
  qed
qed

lemma obj_put_values:
  "(k', v') \<in> set (obj_put k v ps) \<Longrightarrow> v' = v \<or> (k', v') \<in> set ps"
proof -
  have u: "(k', v') \<in> set (update_prop k v ps) \<Longrightarrow> v' = v \<or> (k', v') \<in> set ps" for ps
    by (induction ps) (auto split: if_splits)
  have i: "(k', v') \<in> set (insert_index k v ps) \<Longrightarrow> v' = v \<or> (k', v') \<in> set ps" for ps
    by (induction ps) (auto split: if_splits)
  assume "(k', v') \<in> set (obj_put k v ps)"
  then show ?thesis using u i by (auto simp: obj_put_def split: if_splits)
qed

lemma wf_json_obj_put:
  assumes "wf_json (JObj ps)" "wf_json v"
  shows "wf_json (JObj (obj_put k v ps))"
  using assms
  by (fastforce simp: list_all_iff obj_put_keys_ok dest: obj_put_values)

lemma map_fst_map_snd [simp]:
  "map fst (map (\<lambda>(k, v). (k, f v)) ps) = map fst ps"
  "map (fst \<circ> (\<lambda>(k, v). (k, f v))) ps = map fst ps"
  by (induction ps) auto

lemma wf_json_reparsed: "wf_json v \<Longrightarrow> wf_json (reparsed v)"
proof (induction v rule: reparsed.induct)
  case (3 x)
  then show ?case by (simp add: reparsed_num_def is_double_def)
next
  case (5 xs)
  then show ?case by (simp add: list_all_iff)
next
  case (6 ps)
  then show ?case by (auto simp: list_all_iff)
qed simp_all


subsection \<open>What the parser returns, and the round trip\<close>

text \<open>
  Every value that \<^verbatim>\<open>JSON.parse\<close> returns is well-formed: the Numbers of the tokens
  are doubles, and the automaton keeps well-formed what it has built so far.
\<close>

definition wf_token :: "token \<Rightarrow> bool" where
  "wf_token t = (case t of TNum x \<Rightarrow> is_double (mag x) | _ \<Rightarrow> True)"

definition wf_frame :: "frame \<Rightarrow> bool" where
  "wf_frame f = (case f of FArr xs \<Rightarrow> wf_json (JArr xs) | FObj ps k \<Rightarrow> wf_json (JObj ps))"

fun wf_pstate :: "pstate \<Rightarrow> bool" where
  "wf_pstate (PValue stk) = list_all wf_frame stk"
| "wf_pstate (PArrFirst stk) = list_all wf_frame stk"
| "wf_pstate (PArrNext xs stk) = (wf_json (JArr xs) \<and> list_all wf_frame stk)"
| "wf_pstate (PObjFirst stk) = list_all wf_frame stk"
| "wf_pstate (PObjKey ps stk) = (wf_json (JObj ps) \<and> list_all wf_frame stk)"
| "wf_pstate (PObjColon ps k stk) = (wf_json (JObj ps) \<and> list_all wf_frame stk)"
| "wf_pstate (PObjNext ps stk) = (wf_json (JObj ps) \<and> list_all wf_frame stk)"
| "wf_pstate (PDone v) = wf_json v"
| "wf_pstate PFail = True"

lemma deliver_wf: "wf_json v \<Longrightarrow> list_all wf_frame stk \<Longrightarrow> wf_pstate (deliver v stk)"
proof (cases stk)
  case Nil
  assume "wf_json v"
  with Nil show ?thesis by simp
next
  case (Cons f stk')
  assume v: "wf_json v" and s: "list_all wf_frame stk"
  show ?thesis
  proof (cases f)
    case (FArr xs)
    with Cons v s show ?thesis by (simp add: wf_frame_def)
  next
    case (FObj ps k)
    with Cons s have "wf_json (JObj ps)" "list_all wf_frame stk'" by (simp_all add: wf_frame_def)
    with v have "wf_json (JObj (obj_put k v ps))" "list_all wf_frame stk'"
      by (simp_all only: wf_json_obj_put)
    with Cons FObj show ?thesis by (simp only: deliver.simps wf_pstate.simps)
  qed
qed

lemma on_value_wf: "wf_token t \<Longrightarrow> list_all wf_frame stk \<Longrightarrow> wf_pstate (on_value stk t)"
  by (cases t) (simp_all add: deliver_wf wf_token_def)

lemma step_wf: "wf_pstate st \<Longrightarrow> wf_token t \<Longrightarrow> wf_pstate (step st t)"
proof (cases st)
  case (PValue stk)
  assume "wf_pstate st" "wf_token t"
  with PValue show ?thesis by (simp add: on_value_wf)
next
  case (PArrFirst stk)
  assume "wf_pstate st" "wf_token t"
  with PArrFirst show ?thesis by (simp add: on_value_wf deliver_wf wf_frame_def)
next
  case (PArrNext xs stk)
  assume "wf_pstate st" "wf_token t"
  with PArrNext show ?thesis by (simp add: deliver_wf wf_frame_def)
next
  case (PObjFirst stk)
  assume "wf_pstate st" "wf_token t"
  with PObjFirst show ?thesis by (cases t) (simp_all add: deliver_wf)
next
  case (PObjKey ps stk)
  assume "wf_pstate st" "wf_token t"
  with PObjKey show ?thesis by (cases t) simp_all
next
  case (PObjColon ps k stk)
  assume "wf_pstate st" "wf_token t"
  with PObjColon show ?thesis by (simp add: wf_frame_def)
next
  case (PObjNext ps stk)
  assume "wf_pstate st" "wf_token t"
  with PObjNext show ?thesis by (simp add: deliver_wf)
qed simp_all

lemma run_wf: "wf_pstate st \<Longrightarrow> list_all wf_token ts \<Longrightarrow> wf_pstate (run st ts)"
  by (induction ts arbitrary: st) (simp_all add: step_wf)

lemma lex_number_wf: "lex_number cs = Some (x, r) \<Longrightarrow> is_double (mag x)"
  by (auto simp: lex_number_def Let_def round_mag_is_double split: option.splits)

lemma lex_json_step:
  assumes "lex_json (c # cs) = Some ts"
  shows "(is_json_ws c \<and> lex_json cs = Some ts) \<or>
         (\<exists>t r ts'. ts = t # ts' \<and> wf_token t \<and> lex_json r = Some ts' \<and>
            length r \<le> length cs)"
proof (cases "is_json_ws c")
  case True
  with assms show ?thesis by (simp add: lex_json.simps(2))
next
  case ws: False
  show ?thesis
  proof (cases "c = LBRACE \<or> c = RBRACE \<or> c = LBRACKET \<or> c = RBRACKET \<or> c = COLON \<or>
      c = COMMA")
    case True
    with assms ws show ?thesis
      by (auto simp: lex_json.simps(2) wf_token_def split: if_splits)
  next
    case np: False
    show ?thesis
    proof (cases "c = QUOTE")
      case True
      with assms ws np obtain s r ts' where a: "lex_string cs = Some (s, r)"
        "lex_json r = Some ts'" "ts = TStr s # ts'"
        by (auto simp: lex_json.simps(2) split: option.splits)
      from lex_string_shorter [OF a(1)] have "length r \<le> length cs" by simp
      with a show ?thesis by (auto simp: wf_token_def)
    next
      case nq: False
      show ?thesis
      proof (cases "c = MINUS \<or> is_digit c")
        case True
        with assms ws np nq obtain x r ts' where a: "lex_number (c # cs) = Some (x, r)"
          "lex_json r = Some ts'" "ts = TNum x # ts'"
          by (auto simp: lex_json.simps(2) split: option.splits)
        from lex_number_shorter [OF a(1)] have "length r \<le> length cs" by simp
        moreover have "wf_token (TNum x)" using lex_number_wf [OF a(1)] by (simp add: wf_token_def)
        ultimately show ?thesis using a by auto
      next
        case False
        with assms ws np nq obtain n t ts' where a: "ts = t # ts'" "wf_token t"
          "lex_json (drop n cs) = Some ts'"
          by (auto simp: lex_json.simps(2) wf_token_def split: if_splits)
        have "length (drop n cs) \<le> length cs" by simp
        with a show ?thesis by blast
      qed
    qed
  qed
qed

lemma lex_json_wf: "lex_json cs = Some ts \<Longrightarrow> list_all wf_token ts"
proof (induction cs arbitrary: ts rule: length_induct)
  case (1 cs)
  note IH = "1.IH" [rule_format]
  show ?case
  proof (cases cs)
    case Nil
    with "1.prems" show ?thesis by simp
  next
    case (Cons c cs')
    from lex_json_step [of c cs' ts] "1.prems" Cons
    consider "lex_json cs' = Some ts"
      | t r ts' where "ts = t # ts'" "wf_token t" "lex_json r = Some ts'" "length r \<le> length cs'"
      by auto
    then show ?thesis
    proof cases
      case 1
      then show ?thesis using IH [of cs' ts] Cons by simp
    next
      case 2
      then show ?thesis using IH [of r ts'] Cons by simp
    qed
  qed
qed

lemma parse_tokens_wf: "list_all wf_token ts \<Longrightarrow> parse_tokens ts = Some v \<Longrightarrow> wf_json v"
proof -
  assume ts: "list_all wf_token ts" and p: "parse_tokens ts = Some v"
  have "wf_pstate (run (PValue []) ts)" using ts by (intro run_wf) simp_all
  moreover from p have "run (PValue []) ts = PDone v"
    by (simp add: parse_tokens_def split: pstate.splits)
  ultimately show ?thesis by simp
qed

lemma JSON_parse_wf: "JSON_parse diag text = Inr v \<Longrightarrow> wf_json v"
  by (auto simp: JSON_parse_def split: option.splits dest: lex_json_wf parse_tokens_wf)

lemma JSON_parse_ser:
  assumes "wf_json v" "list_all is_json_ws gap"
  shows "JSON_parse diag (ser gap [] v) = Inr (reparsed v)"
proof -
  have "lexes (ser gap [] v) (toks (reparsed v))" using assms by (intro lex_json_ser) simp_all
  from lexesD [OF this, of "[]" "[]"]
  have "lex_json (ser gap [] v) = Some (toks (reparsed v))" by simp
  moreover have "parse_tokens (toks (reparsed v)) = Some (reparsed v)"
    using assms(1) by (intro parse_tokens_toks wf_json_reparsed)
  ultimately show ?thesis by (simp add: JSON_parse_def)
qed

lemma JSON_parse_stringify:
  "wf_json v \<Longrightarrow> JSON_parse diag (JSON_stringify v sp) = Inr (reparsed v)"
  unfolding JSON_stringify_def
  by (rule JSON_parse_ser) (auto simp: is_json_ws_def list_all_iff split: option.splits)

lemma reparsed_finite: "all_finite v \<Longrightarrow> reparsed v = pos_zero v"
  by (induction v rule: reparsed.induct) (auto simp: reparsed_num_def list_all_iff)


subsection \<open>Texts that are never empty\<close>

lemma trim_blank:
  assumes "\<forall>c \<in> set text. is_js_space c"
  shows "trim text = []"
  using assms by (auto simp: trim_def dest: set_dropWhileD)

lemma JSON_parse_empty: "JSON_parse diag [] = Inl (SyntaxError (diag []))"
  by (simp add: JSON_parse_def parse_tokens_def)

lemma layout_nonempty: "layout sp \<noteq> []"
  by (auto simp: layout_def Let_def digits_of_nonempty)

lemma Number_toString_nonempty: "Number_toString x \<noteq> []"
  by (simp add: Number_toString_def js_def layout_nonempty)

lemma ser_nonempty: "ser gap ind v \<noteq> []"
  by (cases v) (simp_all add: js_def Number_toString_nonempty QuoteJSONString_def wrap_def)


subsection \<open>A text between brackets is not a string\<close>

text \<open>
  A text that begins with a bracket or a brace parses to an array or an object, if it
  parses: once the automaton is \<open>inside\<close> an array or object, it ends with one.
\<close>

fun is_container :: "json \<Rightarrow> bool" where
  "is_container (JArr xs) = True"
| "is_container (JObj ps) = True"
| "is_container v = False"

fun inside :: "pstate \<Rightarrow> bool" where
  "inside (PValue stk) = (stk \<noteq> [])"
| "inside (PDone v) = is_container v"
| "inside st = True"

lemma deliver_inside: "is_container v \<or> stk \<noteq> [] \<Longrightarrow> inside (deliver v stk)"
proof (cases stk)
  case Nil
  assume "is_container v \<or> stk \<noteq> []"
  with Nil show ?thesis by simp
next
  case (Cons f stk')
  then show ?thesis by (cases f) simp_all
qed

lemma on_value_inside: "stk \<noteq> [] \<Longrightarrow> inside (on_value stk t)"
  by (cases t) (simp_all add: deliver_inside)

lemma step_inside: "inside st \<Longrightarrow> inside (step st t)"
proof (cases st)
  case (PValue stk)
  assume "inside st"
  with PValue show ?thesis by (simp add: on_value_inside)
next
  case (PArrFirst stk)
  then show ?thesis by (simp add: on_value_inside deliver_inside)
next
  case (PArrNext xs stk)
  then show ?thesis by (simp add: deliver_inside)
next
  case (PObjFirst stk)
  then show ?thesis by (cases t) (simp_all add: deliver_inside)
next
  case (PObjKey ps stk)
  then show ?thesis by (cases t) simp_all
next
  case (PObjColon ps k stk)
  then show ?thesis by simp
next
  case (PObjNext ps stk)
  then show ?thesis by (simp add: deliver_inside)
qed simp_all

lemma run_inside: "inside st \<Longrightarrow> inside (run st ts)"
  by (induction ts arbitrary: st) (simp_all add: step_inside)

lemma bracket_text_container:
  assumes "looks_like_json t" "JSON_parse diag t = Inr v"
  shows "is_container v"
proof -
  from assms(1) obtain c cs where t: "t = c # cs" and c: "c = LBRACE \<or> c = LBRACKET"
    by (cases t) (auto simp: looks_like_json_def startsWith_def js_def)
  from assms(2) obtain ts where l: "lex_json t = Some ts" and p: "parse_tokens ts = Some v"
    by (auto simp: JSON_parse_def split: option.splits)
  from l t c obtain ts' where ts: "ts = TLBrace # ts' \<or> ts = TLBracket # ts'"
    by (auto simp: lex_json_punct)
  from p have r: "run (PValue []) ts = PDone v"
    by (simp add: parse_tokens_def split: pstate.splits)
  have "inside (run (step (PValue []) (hd ts)) (tl ts))"
    using ts by (intro run_inside) auto
  moreover have "run (PValue []) ts = run (step (PValue []) (hd ts)) (tl ts)"
    using ts by auto
  ultimately have "inside (PDone v)" unfolding r by simp
  then show ?thesis by simp
qed

subsection \<open>Trimming a serialization\<close>

lemma trim_id:
  assumes "s \<noteq> []" "\<not> is_js_space (hd s)" "\<not> is_js_space (last s)"
  shows "trim s = s"
proof -
  from assms have a: "dropWhile is_js_space s = s" by (cases s) simp_all
  from assms have "dropWhile is_js_space (rev s) = rev s"
    by (cases "rev s") (simp_all add: hd_rev)
  with a show ?thesis by (simp add: trim_def)
qed

lemma js_space_range: "is_js_space c \<Longrightarrow> uint c \<le> 32 \<or> 160 \<le> uint c"
  unfolding is_js_space_def word_le_def by (elim disjE conjE) simp_all

lemma digit_not_space: "is_digit c \<Longrightarrow> \<not> is_js_space c"
proof
  assume d: "is_digit c" and s: "is_js_space c"
  from d have "48 \<le> uint c" "uint c \<le> 57" by (simp_all add: is_digit_def word_le_def)
  moreover from s have "uint c \<le> 32 \<or> 160 \<le> uint c" by (rule js_space_range)
  ultimately show False by linarith
qed


subsection \<open>The ends of a serialization\<close>

lemma last_digits_of: "0 \<le> n \<Longrightarrow> is_digit (last (digits_of n))"
  using digits_of_props [of n] digits_of_nonempty [of n] by (auto simp: list_all_iff)

lemma layout_last: "0 < s \<Longrightarrow> is_digit (last (layout (s, p)))"
proof -
  assume s: "0 < s"
  define ds where "ds = digits_of s"
  have D: "ds \<noteq> []" "is_digit (last ds)"
    using last_digits_of [of s] digits_of_nonempty [of s] s by (simp_all add: ds_def)
  have z: "is_digit ZERO" by (simp add: is_digit_def)
  show ?thesis
    using D z
    by (auto simp: layout_def Let_def ds_def [symmetric] last_append last_digits_of
        digits_of_nonempty)
qed

lemma Number_toString_edges:
  assumes "is_double (mag x)" "mag x \<noteq> MInf"
  shows "\<not> is_js_space (hd (Number_toString x)) \<and> \<not> is_js_space (last (Number_toString x))"
proof (cases "mag x")
  case MZero
  then show ?thesis by (simp add: Number_toString_def js_def is_js_space_def)
next
  case (MFin n u)
  with assms have "0 < fst (shortest_decimal (mag x))" by (simp add: shortest_decimal_pos)
  then have "layout (shortest_decimal (mag x)) \<noteq> []"
    "is_digit (hd (layout (shortest_decimal (mag x))))"
    "is_digit (last (layout (shortest_decimal (mag x))))"
    using layout_head [of "fst (shortest_decimal (mag x))" "snd (shortest_decimal (mag x))"]
      layout_last [of "fst (shortest_decimal (mag x))" "snd (shortest_decimal (mag x))"]
    by simp_all
  then have "layout (shortest_decimal (mag x)) \<noteq> []"
    "\<not> is_js_space (hd (layout (shortest_decimal (mag x))))"
    "\<not> is_js_space (last (layout (shortest_decimal (mag x))))"
    by (simp_all add: digit_not_space)
  moreover have "\<not> is_js_space MINUS" by (simp add: is_js_space_def)
  ultimately show ?thesis
    using MFin by (simp add: Number_toString_def)
next
  case MInf
  with assms show ?thesis by simp
qed

lemma wrap_edges:
  "wrap opn cls gap ind parts \<noteq> []" "hd (wrap opn cls gap ind parts) = opn"
  "last (wrap opn cls gap ind parts) = cls"
  by (simp_all add: wrap_def)

lemma ser_edges:
  assumes "wf_json v"
  shows "\<not> is_js_space (hd (ser gap ind v)) \<and> \<not> is_js_space (last (ser gap ind v))"
proof (cases v)
  case JNull
  then show ?thesis by (simp add: js_def is_js_space_def)
next
  case (JBool b)
  then show ?thesis by (simp add: js_def is_js_space_def)
next
  case (JNum x)
  show ?thesis
  proof (cases "mag x = MInf")
    case True
    with JNum show ?thesis by (simp add: js_def is_js_space_def)
  next
    case False
    from JNum assms False
    have "\<not> is_js_space (hd (Number_toString x)) \<and> \<not> is_js_space (last (Number_toString x))"
      by (intro Number_toString_edges) simp_all
    with JNum False show ?thesis by simp
  qed
next
  case (JStr s)
  then show ?thesis by (simp add: QuoteJSONString_def is_js_space_def)
next
  case (JArr xs)
  then show ?thesis by (simp add: wrap_edges is_js_space_def)
next
  case (JObj ps)
  then show ?thesis by (simp add: wrap_edges is_js_space_def)
qed

lemma trim_ser: "wf_json v \<Longrightarrow> trim (ser gap ind v) = ser gap ind v"
  using ser_edges [of v gap ind] by (intro trim_id) (simp_all add: ser_nonempty)


subsection \<open>Normalizing what was formatted\<close>

lemma parseJson_wf: "parseJson diag s = Inr v \<Longrightarrow> wf_json v"
proof (cases "trim s = []")
  case True
  assume "parseJson diag s = Inr v"
  with True show ?thesis by (simp add: parseJson_def)
next
  case False
  assume a: "parseJson diag s = Inr v"
  show ?thesis
  proof (cases "JSON_parse diag (trim s)")
    case (Inl e)
    with a False show ?thesis by (cases e) (simp_all add: parseJson_def)
  next
    case (Inr parsed)
    then have wp: "wf_json parsed" by (rule JSON_parse_wf)
    show ?thesis
    proof (cases "\<exists>str. parsed = JStr str")
      case True
      then obtain str where p: "parsed = JStr str" by blast
      show ?thesis
      proof (cases "looks_like_json (trim str)")
        case looks: True
        show ?thesis
        proof (cases "JSON_parse diag (trim str)")
          case (Inl e)
          with a False Inr p looks have "v = parsed" by (simp add: parseJson_def)
          with wp show ?thesis by simp
        next
          case inner: (Inr w)
          with a False Inr p looks have "v = w" by (simp add: parseJson_def)
          with inner show ?thesis by (simp add: JSON_parse_wf)
        qed
      next
        case False
        with a \<open>trim s \<noteq> []\<close> Inr p have "v = parsed" by (simp add: parseJson_def)
        with wp show ?thesis by simp
      qed
    next
      case False
      with a \<open>trim s \<noteq> []\<close> Inr have "v = parsed"
        by (cases parsed) (simp_all add: parseJson_def)
      with wp show ?thesis by simp
    qed
  qed
qed

lemma parseJson_string_kept:
  assumes "parseJson diag s = Inr (JStr str)"
  shows "\<not> looks_like_json (trim str) \<or> (\<exists>e. JSON_parse diag (trim str) = Inl e)"
proof (cases "trim s = []")
  case True
  with assms show ?thesis by (simp add: parseJson_def)
next
  case False
  show ?thesis
  proof (cases "JSON_parse diag (trim s)")
    case (Inl e)
    with assms False show ?thesis by (cases e) (simp_all add: parseJson_def)
  next
    case (Inr parsed)
    show ?thesis
    proof (cases "\<exists>str0. parsed = JStr str0")
      case True
      then obtain str0 where p: "parsed = JStr str0" by blast
      show ?thesis
      proof (cases "looks_like_json (trim str0)")
        case looks: True
        show ?thesis
        proof (cases "JSON_parse diag (trim str0)")
          case (Inl e)
          with assms False Inr p looks have "str = str0" by (simp add: parseJson_def)
          with Inl show ?thesis by blast
        next
          case inner: (Inr w)
          with assms False Inr p looks have "w = JStr str" by (simp add: parseJson_def)
          moreover have "is_container w" using looks inner by (rule bracket_text_container)
          ultimately show ?thesis by simp
        qed
      next
        case nl: False
        with assms False Inr p have "str = str0" by (simp add: parseJson_def)
        with nl show ?thesis by simp
      qed
    next
      case np: False
      with assms False Inr have "JStr str = parsed"
        by (cases parsed) (simp_all add: parseJson_def)
      with np show ?thesis by auto
    qed
  qed
qed

lemma reparsed_JStr: "reparsed v = JStr str \<longleftrightarrow> v = JStr str"
  by (cases v) (auto simp: reparsed_num_def)

lemma parseJson_ser:
  assumes wf: "wf_json v" and gap: "list_all is_json_ws gap"
    and kept: "\<And>str. v = JStr str \<Longrightarrow>
      \<not> looks_like_json (trim str) \<or> (\<exists>e. JSON_parse diag (trim str) = Inl e)"
  shows "parseJson diag (ser gap [] v) = Inr (reparsed v)"
proof -
  have t: "trim (ser gap [] v) = ser gap [] v" using wf by (rule trim_ser)
  have n: "ser gap [] v \<noteq> []" by (rule ser_nonempty)
  have p: "JSON_parse diag (ser gap [] v) = Inr (reparsed v)" using wf gap by (rule JSON_parse_ser)
  show ?thesis
  proof (cases "\<exists>str. v = JStr str")
    case True
    then obtain str where v: "v = JStr str" by blast
    from kept [OF v] p v t n show ?thesis
      by (auto simp: parseJson_def Let_def)
  next
    case False
    then have r: "reparsed v \<noteq> JStr str" for str by (simp add: reparsed_JStr)
    show ?thesis
    proof (cases "reparsed v")
      case (JStr x)
      with r show ?thesis by blast
    qed (use p t n in \<open>simp_all add: parseJson_def Let_def\<close>)
  qed
qed

lemma parseJson_stringify:
  assumes "parseJson diag s = Inr v"
  shows "parseJson diag (JSON_stringify v space) = Inr (reparsed v)"
  unfolding JSON_stringify_def
proof (rule parseJson_ser)
  show "wf_json v" using assms by (rule parseJson_wf)
  show "list_all is_json_ws (case space of None \<Rightarrow> [] | Some n \<Rightarrow> replicate (min n 10) SPACE)"
    by (auto simp: is_json_ws_def list_all_iff split: option.splits)
  show "\<not> looks_like_json (trim str) \<or> (\<exists>e. JSON_parse diag (trim str) = Inl e)"
    if "v = JStr str" for str
    using assms that by (intro parseJson_string_kept) simp
qed

lemma parseJson_valid:
  assumes "JSON_parse diag (trim s) = Inr v0"
  shows "\<exists>v. parseJson diag s = Inr v"
proof -
  from assms have "trim s \<noteq> []" by (auto simp: JSON_parse_empty)
  with assms show ?thesis
    by (auto simp: parseJson_def Let_def split: json.splits sum.splits)
qed

lemma formatJson_output:
  assumes "parseJson diag s = Inr v" "error (formatJson diag limits s opts st) = None"
  shows "output (formatJson diag limits s opts st) =
           JSON_stringify v (if minify opts then None else Some (indent opts))"
  using assms
  by (auto simp: formatJson_def JSON_stringify_on_def split: option.splits if_splits)


subsection \<open>The characters outside the string literals\<close>

text \<open>
  \<open>outside_strings\<close> scans a text and keeps the characters that stand outside its
  string literals; a backslash in a literal takes the next character with it.
\<close>

datatype scan = Outside | Inside | Escaped

fun outside_strings :: "scan \<Rightarrow> jsstring \<Rightarrow> jsstring" where
  "outside_strings m [] = []"
| "outside_strings Outside (c # cs) =
     (if c = QUOTE then outside_strings Inside cs else c # outside_strings Outside cs)"
| "outside_strings Inside (c # cs) =
     (if c = QUOTE then outside_strings Outside cs
      else if c = BACKSLASH then outside_strings Escaped cs
      else outside_strings Inside cs)"
| "outside_strings Escaped (c # cs) = outside_strings Inside cs"

text \<open>
  A \<open>plain\<close> text has neither a quote nor a whitespace character.  A text is
  \<open>unspaced\<close> when it leaves the scan outside a literal, as it entered it, and
  contributes plain characters only.
\<close>

definition plain :: "jsstring \<Rightarrow> bool" where
  "plain t \<longleftrightarrow> list_all (\<lambda>c. c \<noteq> QUOTE \<and> \<not> is_js_space c) t"

definition unspaced :: "jsstring \<Rightarrow> bool" where
  "unspaced t \<longleftrightarrow>
     (\<exists>out. plain out \<and>
        (\<forall>rest. outside_strings Outside (t @ rest) = out @ outside_strings Outside rest))"

lemma plain_append [simp]: "plain (s @ t) \<longleftrightarrow> plain s \<and> plain t"
  by (simp add: plain_def)

lemma outside_plain:
  "plain t \<Longrightarrow> outside_strings Outside (t @ rest) = t @ outside_strings Outside rest"
  by (induction t) (simp_all add: plain_def)

lemma unspaced_plain: "plain t \<Longrightarrow> unspaced t"
  unfolding unspaced_def using outside_plain by blast

lemma unspaced_append: "unspaced s \<Longrightarrow> unspaced t \<Longrightarrow> unspaced (s @ t)"
proof -
  assume "unspaced s" "unspaced t"
  then obtain a b where a: "plain a" "\<And>rest. outside_strings Outside (s @ rest) = a @ outside_strings Outside rest"
    and b: "plain b" "\<And>rest. outside_strings Outside (t @ rest) = b @ outside_strings Outside rest"
    unfolding unspaced_def by blast
  have "plain (a @ b)" using a(1) b(1) by simp
  moreover have "outside_strings Outside ((s @ t) @ rest) = (a @ b) @ outside_strings Outside rest"
    for rest
    using a(2) [of "t @ rest"] b(2) [of rest] by simp
  ultimately show ?thesis unfolding unspaced_def by blast
qed

lemma hex_digit_plain:
  assumes "0 \<le> d" "d < 16"
  shows "hex_digit d \<noteq> QUOTE" "hex_digit d \<noteq> BACKSLASH"
proof -
  from assms have "d = 0 \<or> d = 1 \<or> d = 2 \<or> d = 3 \<or> d = 4 \<or> d = 5 \<or> d = 6 \<or> d = 7 \<or> d = 8 \<or>
      d = 9 \<or> d = 10 \<or> d = 11 \<or> d = 12 \<or> d = 13 \<or> d = 14 \<or> d = 15"
    by presburger
  then show "hex_digit d \<noteq> QUOTE" "hex_digit d \<noteq> BACKSLASH"
    by (elim disjE; simp add: hex_digit_def)+
qed

lemma inside_unicode_escape:
  "outside_strings Inside (unicode_escape c @ rest) = outside_strings Inside rest"
proof -
  have r: "0 \<le> uint c div 4096" "uint c div 4096 < 16"
    "0 \<le> uint c div 256 mod 16" "uint c div 256 mod 16 < 16"
    "0 \<le> uint c div 16 mod 16" "uint c div 16 mod 16 < 16"
    "0 \<le> uint c mod 16" "uint c mod 16 < 16"
    using uint_lt2p [of c] by (simp_all add: div_less_iff_less_mult pos_imp_zdiv_nonneg_iff)
  show ?thesis
    by (simp add: unicode_escape_def Let_def hex_digit_plain r)
qed

lemma inside_escape_unit:
  "outside_strings Inside (escape_unit c @ rest) = outside_strings Inside rest"
  by (simp add: escape_unit_def inside_unicode_escape)

lemma surrogate_not_delimiter:
  assumes "is_lead c \<or> is_trail c"
  shows "c \<noteq> QUOTE" "c \<noteq> BACKSLASH"
  using assms by (auto simp: is_lead_def is_trail_def)

lemma inside_quote_units:
  "outside_strings Inside (quote_units s @ QUOTE # rest) = outside_strings Outside rest"
proof (induction s rule: quote_units.induct)
  case 1
  show ?case by simp
next
  case (2 c)
  show ?case using inside_escape_unit [of c "QUOTE # rest"] by simp
next
  case (3 c d cs)
  show ?case
  proof (cases "is_lead c \<and> is_trail d")
    case True
    then have n: "c \<noteq> QUOTE" "c \<noteq> BACKSLASH" "d \<noteq> QUOTE" "d \<noteq> BACKSLASH"
      by (simp_all add: surrogate_not_delimiter)
    have q: "quote_units (c # d # cs) = c # d # quote_units cs" using True by simp
    have "outside_strings Inside (quote_units cs @ QUOTE # rest) = outside_strings Outside rest"
      using True by (rule "3.IH"(1))
    then show ?thesis unfolding q using n by simp
  next
    case False
    have q: "quote_units (c # d # cs) = escape_unit c @ quote_units (d # cs)"
      using False by (simp only: quote_units.simps if_False)
    have "outside_strings Inside ((escape_unit c @ quote_units (d # cs)) @ QUOTE # rest) =
        outside_strings Inside (quote_units (d # cs) @ QUOTE # rest)"
      using inside_escape_unit [of c "quote_units (d # cs) @ QUOTE # rest"] by simp
    also have "\<dots> = outside_strings Outside rest" using False by (rule "3.IH"(2))
    finally show ?thesis unfolding q .
  qed
qed

lemma unspaced_QuoteJSONString: "unspaced (QuoteJSONString s)"
proof -
  have "outside_strings Outside (QuoteJSONString s @ rest) = [] @ outside_strings Outside rest"
    for rest
    by (simp add: QuoteJSONString_def inside_quote_units)
  moreover have "plain []" by (simp add: plain_def)
  ultimately show ?thesis unfolding unspaced_def by blast
qed

lemma plain_Nil [simp]: "plain []"
  by (simp add: plain_def)

lemma plain_Cons: "plain (c # cs) \<longleftrightarrow> c \<noteq> QUOTE \<and> \<not> is_js_space c \<and> plain cs"
  by (simp add: plain_def)

lemma plain_digit: "is_digit c \<Longrightarrow> c \<noteq> QUOTE \<and> \<not> is_js_space c"
  using digit_not_space [of c] by (auto simp: is_digit_def)

lemma plain_digits_of: "0 \<le> n \<Longrightarrow> plain (digits_of n)"
  using digits_of_props [of n] by (auto simp: plain_def list_all_iff dest: plain_digit)

lemma plain_take_drop: "plain t \<Longrightarrow> plain (take n t) \<and> plain (drop n t)"
  by (auto simp: plain_def list_all_iff dest: in_set_takeD in_set_dropD)

lemma plain_marks:
  "plain (replicate n ZERO)" "plain [DOT]" "plain [LOWER_E]" "plain [MINUS]" "plain [PLUS]"
  "plain [ZERO]" "plain [COMMA]" "plain [COLON]" "plain [LBRACKET]" "plain [RBRACKET]"
  "plain [LBRACE]" "plain [RBRACE]"
  by (simp_all add: plain_def list_all_iff is_js_space_def)

lemma layout_plain: "0 < s \<Longrightarrow> plain (layout (s, p))"
proof -
  assume s: "0 < s"
  define ds where "ds = digits_of s"
  have D: "plain ds" using s by (simp add: ds_def plain_digits_of)
  have T: "plain (take n ds)" "plain (drop n ds)" for n using plain_take_drop [OF D] by simp_all
  have E: "plain (c # digits_of n)" if "0 \<le> n" "c = MINUS \<or> c = PLUS" for c n
    using that plain_digits_of [of n] plain_marks(4,5) by (auto simp: plain_Cons)
  have L: "layout (s, p) =
     (let k = int (length ds); n = p + k
      in if - 5 \<le> n \<and> n \<le> 21 then
           (if k \<le> n then ds @ replicate (nat (n - k)) ZERO
            else if 0 < n then take (nat n) ds @ [DOT] @ drop (nat n) ds
            else [ZERO, DOT] @ replicate (nat (- n)) ZERO @ ds)
         else
           (if k = 1 then ds @ [LOWER_E] @ ((if n - 1 < 0 then MINUS else PLUS) # digits_of \<bar>n - 1\<bar>)
            else take 1 ds @ [DOT] @ drop 1 ds @ [LOWER_E] @
                 ((if n - 1 < 0 then MINUS else PLUS) # digits_of \<bar>n - 1\<bar>)))"
    by (simp only: layout_def Let_def ds_def fst_conv snd_conv)
  have e: "plain ((if n - 1 < 0 then MINUS else PLUS) # digits_of \<bar>n - 1\<bar>)" for n :: int
    by (rule E) simp_all
  have z: "plain [ZERO, DOT]" using plain_marks(2,6) by (simp add: plain_Cons)
  show ?thesis
    unfolding L Let_def
    by (simp only: plain_append D T e z plain_marks if_split simp_thms)
qed

lemma Number_toString_plain:
  assumes "is_double (mag x)" "mag x \<noteq> MInf"
  shows "plain (Number_toString x)"
proof (cases "mag x")
  case MZero
  then show ?thesis by (simp add: Number_toString_def js_def plain_marks)
next
  case (MFin n u)
  with assms have "0 < fst (shortest_decimal (mag x))" by (simp add: shortest_decimal_pos)
  then have "plain (layout (shortest_decimal (mag x)))"
    using layout_plain [of "fst (shortest_decimal (mag x))" "snd (shortest_decimal (mag x))"]
    by simp
  then show ?thesis using MFin plain_marks(4) by (simp add: Number_toString_def)
next
  case MInf
  with assms show ?thesis by simp
qed

lemma unspaced_join:
  "unspaced sep \<Longrightarrow> list_all unspaced parts \<Longrightarrow> unspaced (join sep parts)"
  by (induction sep parts rule: join.induct) (simp_all add: unspaced_plain unspaced_append)

lemma unspaced_wrap:
  assumes "list_all unspaced parts" "plain [opn]" "plain [cls]"
  shows "unspaced (wrap opn cls [] ind parts)"
proof (cases "parts = []")
  case True
  have "plain [opn, cls]" using assms(2,3) by (simp add: plain_Cons)
  with True show ?thesis by (simp add: wrap_def unspaced_plain)
next
  case False
  have "unspaced ([opn] @ join [COMMA] parts @ [cls])"
    using assms by (intro unspaced_append unspaced_join unspaced_plain plain_marks)
  with False show ?thesis by (simp add: wrap_def)
qed

lemma unspaced_ser: "gap = [] \<Longrightarrow> wf_json v \<Longrightarrow> unspaced (ser gap ind v)"
proof (induction gap ind v rule: ser.induct)
  case (1 gap ind)
  show ?case by (rule unspaced_plain) (simp add: js_def plain_def is_js_space_def)
next
  case (2 gap ind b)
  show ?case by (rule unspaced_plain) (simp add: js_def plain_def is_js_space_def)
next
  case (3 gap ind x)
  show ?case
  proof (cases "mag x = MInf")
    case True
    then show ?thesis by (simp add: unspaced_plain js_def plain_def is_js_space_def)
  next
    case False
    with 3 have "plain (Number_toString x)" by (intro Number_toString_plain) simp_all
    with False show ?thesis by (simp add: unspaced_plain)
  qed
next
  case (4 gap ind s)
  show ?case by (simp add: unspaced_QuoteJSONString)
next
  case (5 gap ind xs)
  have "list_all unspaced (map (ser gap (ind @ gap)) xs)"
    using 5 by (auto simp: list_all_iff)
  then show ?case using 5(2) by (simp add: unspaced_wrap plain_marks)
next
  case (6 gap ind ps)
  have "unspaced (QuoteJSONString k @ [COLON] @ ser gap (ind @ gap) v)" if "(k, v) \<in> set ps" for k v
  proof -
    have "wf_json v" using 6(3) that by (auto simp: list_all_iff)
    then have "unspaced (ser gap (ind @ gap) v)" using 6(1) [OF that refl] 6(2) by simp
    then have "unspaced ([COLON] @ ser gap (ind @ gap) v)"
      by (rule unspaced_append [OF unspaced_plain [OF plain_marks(8)]])
    then show ?thesis
      by (rule unspaced_append [OF unspaced_QuoteJSONString])
  qed
  then have "list_all unspaced
      (map (\<lambda>(k, v). QuoteJSONString k @ [COLON] @ (if gap = [] then [] else [SPACE]) @
                       ser gap (ind @ gap) v) ps)"
    using 6(2) by (auto simp: list_all_iff)
  then show ?case using 6(2) by (simp add: unspaced_wrap plain_marks)
qed

lemma json_ws_js_space: "is_json_ws c \<Longrightarrow> is_js_space c"
  by (auto simp: is_json_ws_def is_js_space_def)

lemma JSON_stringify_unspaced:
  assumes "wf_json v"
  shows "list_all (\<lambda>c. \<not> is_js_space c) (outside_strings Outside (JSON_stringify v None))"
proof -
  have "unspaced (ser [] [] v)" using assms by (intro unspaced_ser) simp_all
  then obtain out where "plain out"
    "\<And>rest. outside_strings Outside (ser [] [] v @ rest) = out @ outside_strings Outside rest"
    unfolding unspaced_def by blast
  from this(1) this(2) [of "[]"] show ?thesis
    by (simp add: JSON_stringify_def plain_def list_all_iff)
qed


subsection \<open>The length of a serialization\<close>

lemma length_join:
  "length (join sep parts) = sum_list (map length parts) + (length parts - 1) * length sep"
  by (induction sep parts rule: join.induct) simp_all

lemma length_wrap:
  "length (wrap opn cls gap ind parts) =
     (if parts = [] then 2
      else if gap = [] then 2 + length (join [COMMA] parts)
      else 4 + 2 * length ind + length gap + length (join ([COMMA, NL] @ (ind @ gap)) parts))"
  by (simp add: wrap_def)

lemma length_wrap_mono:
  assumes lg: "length gap \<le> length gap'" and li: "length ind \<le> length ind'"
    and lp: "length parts = length parts'"
    and sm: "sum_list (map length parts) \<le> sum_list (map length parts')"
  shows "length (wrap opn cls gap ind parts) \<le> length (wrap opn cls gap' ind' parts')"
    and "parts \<noteq> [] \<Longrightarrow> length gap < length gap' \<Longrightarrow>
         length (wrap opn cls gap ind parts) < length (wrap opn cls gap' ind' parts')"
proof -
  define n where "n = length parts - Suc 0"
  define a where "a = sum_list (map length parts)"
  define a' where "a' = sum_list (map length parts')"
  define s where "s = 2 + (length ind + length gap)"
  define s' where "s' = 2 + (length ind' + length gap')"
  have e: "parts = [] \<longleftrightarrow> parts' = []" using lp by auto
  have n': "length parts' - Suc 0 = n" using lp by (simp add: n_def)
  have ss: "s \<le> s'" using lg li by (simp add: s_def s'_def)
  define q where "q = n * s"
  define q' where "q' = n * s'"
  have m: "q \<le> q'" unfolding q_def q'_def using ss by (rule mult_le_mono2)
  have "n * 1 \<le> n * s'" by (rule mult_le_mono2) (simp add: s'_def)
  then have m1: "n \<le> q'" by (simp add: q'_def)
  have aa: "a \<le> a'" using sm by (simp add: a_def a'_def)
  have L: "length (wrap opn cls gap ind parts) =
      (if parts = [] then 2 else if gap = [] then 2 + (a + n)
       else 4 + 2 * length ind + length gap + (a + q))"
    by (simp add: length_wrap length_join n_def [symmetric] a_def s_def q_def)
  have L': "length (wrap opn cls gap' ind' parts') =
      (if parts = [] then 2 else if gap' = [] then 2 + (a' + n)
       else 4 + 2 * length ind' + length gap' + (a' + q'))"
    by (simp add: length_wrap length_join n' a'_def s'_def e q'_def)
  have g: "gap' = [] \<Longrightarrow> gap = []" using lg by simp
  show "length (wrap opn cls gap ind parts) \<le> length (wrap opn cls gap' ind' parts')"
    unfolding L L' using m m1 aa lg li g by (auto split: if_splits)
  show "length (wrap opn cls gap ind parts) < length (wrap opn cls gap' ind' parts')"
    if "parts \<noteq> []" "length gap < length gap'"
    unfolding L L' using m m1 aa li that by (auto split: if_splits)
qed

lemma ser_length_mono:
  "length gap \<le> length gap' \<Longrightarrow> length ind \<le> length ind' \<Longrightarrow>
   length (ser gap ind v) \<le> length (ser gap' ind' v)"
proof (induction gap ind v arbitrary: ind' rule: ser.induct)
  case (5 gap ind xs)
  have "length (ser gap (ind @ gap) x) \<le> length (ser gap' (ind' @ gap') x)" if "x \<in> set xs" for x
  proof -
    have "length (ind @ gap) \<le> length (ind' @ gap')" using 5(2,3) by simp
    then show ?thesis by (rule 5(1) [OF that 5(2)])
  qed
  then have "sum_list (map (\<lambda>x. length (ser gap (ind @ gap) x)) xs) \<le>
      sum_list (map (\<lambda>x. length (ser gap' (ind' @ gap') x)) xs)"
    by (rule sum_list_mono)
  then have "sum_list (map length (map (ser gap (ind @ gap)) xs)) \<le>
      sum_list (map length (map (ser gap' (ind' @ gap')) xs))"
    by (simp add: comp_def)
  then show ?case
    unfolding ser.simps by (intro length_wrap_mono(1) 5(2,3)) simp_all
next
  case (6 gap ind ps)
  let ?f = "\<lambda>gap ind. (\<lambda>(k, v). QuoteJSONString k @ [COLON] @ (if gap = [] then [] else [SPACE]) @
      ser gap (ind @ gap) v)"
  have g: "gap' = [] \<Longrightarrow> gap = []" using 6(2) by simp
  define F where "F = (\<lambda>p. length (?f gap ind p))"
  define G where "G = (\<lambda>p. length (?f gap' ind' p))"
  have "F p \<le> G p" if "p \<in> set ps" for p
  proof -
    obtain k v where p: "p = (k, v)" by (cases p)
    have "length (ind @ gap) \<le> length (ind' @ gap')" using 6(2,3) by simp
    then have "length (ser gap (ind @ gap) v) \<le> length (ser gap' (ind' @ gap') v)"
      by (rule 6(1) [OF that p [symmetric] 6(2)])
    then show ?thesis using p g by (auto simp: F_def G_def)
  qed
  then have "sum_list (map F ps) \<le> sum_list (map G ps)" by (rule sum_list_mono)
  then have "sum_list (map length (map (?f gap ind) ps)) \<le>
      sum_list (map length (map (?f gap' ind') ps))"
    by (simp add: comp_def F_def G_def)
  then show ?case
    unfolding ser.simps by (intro length_wrap_mono(1) 6(2,3)) simp_all
qed simp_all

text \<open>The arrays with an element and the objects with a member.\<close>

fun non_empty :: "json \<Rightarrow> bool" where
  "non_empty (JArr xs) = (xs \<noteq> [])"
| "non_empty (JObj ps) = (ps \<noteq> [])"
| "non_empty v = False"

lemma ser_length_less:
  assumes "non_empty v" "length gap < length gap'"
  shows "length (ser gap [] v) < length (ser gap' [] v)"
proof (cases v)
  case (JArr xs)
  have "length (ser gap ([] @ gap) x) \<le> length (ser gap' ([] @ gap') x)" for x
    using assms(2) by (simp add: ser_length_mono)
  then have "sum_list (map (\<lambda>x. length (ser gap ([] @ gap) x)) xs) \<le>
      sum_list (map (\<lambda>x. length (ser gap' ([] @ gap') x)) xs)"
    by (rule sum_list_mono)
  then have "sum_list (map length (map (ser gap ([] @ gap)) xs)) \<le>
      sum_list (map length (map (ser gap' ([] @ gap')) xs))"
    by (simp add: comp_def)
  moreover have "xs \<noteq> []" using JArr assms(1) by simp
  ultimately show ?thesis
    unfolding JArr ser.simps using assms(2)
    by (intro length_wrap_mono(2)) simp_all
next
  case (JObj ps)
  let ?f = "\<lambda>gap ind. (\<lambda>(k, v). QuoteJSONString k @ [COLON] @ (if gap = [] then [] else [SPACE]) @
      ser gap (ind @ gap) v)"
  have g: "gap' = [] \<Longrightarrow> gap = []" using assms(2) by simp
  define F where "F = (\<lambda>p. length (?f gap [] p))"
  define G where "G = (\<lambda>p. length (?f gap' [] p))"
  have "F p \<le> G p" for p
  proof -
    obtain k v where p: "p = (k, v)" by (cases p)
    have "length (ser gap ([] @ gap) v) \<le> length (ser gap' ([] @ gap') v)"
      using assms(2) by (simp add: ser_length_mono)
    then show ?thesis using p g by (auto simp: F_def G_def)
  qed
  then have "sum_list (map F ps) \<le> sum_list (map G ps)" by (rule sum_list_mono)
  then have "sum_list (map length (map (?f gap []) ps)) \<le>
      sum_list (map length (map (?f gap' []) ps))"
    by (simp add: comp_def F_def G_def)
  moreover have "ps \<noteq> []" using JObj assms(1) by simp
  ultimately show ?thesis
    unfolding JObj ser.simps using assms(2)
    by (intro length_wrap_mono(2)) simp_all
qed (use assms in simp_all)

lemma JSON_stringify_length_less:
  assumes "non_empty v" "n < m" "n < 10"
  shows "length (JSON_stringify v (Some n)) < length (JSON_stringify v (Some m))"
  unfolding JSON_stringify_def using assms by (simp add: ser_length_less)




section \<open>Example inputs\<close>

text \<open>A diagnostic wording and a state left by an earlier run, for the examples below.\<close>

definition example_diag :: "jsstring \<Rightarrow> jsstring" where
  "example_diag text = js ''Unexpected token''"

definition example_state :: state where
  "example_state =
     \<lparr>input = js ''[0]'', output = js ''[\<newline>  0\<newline>]'', error = None,
      options = \<lparr>indent = 2, minify = False\<rparr>\<rparr>"

text \<open>
  An engine whose stack holds \<open>n\<close> levels of nested arrays and objects and no more,
  with the wording of V8 for the RangeError.
\<close>

fun depth :: "json \<Rightarrow> nat" where
  "depth (JArr xs) = Suc (foldr max (map depth xs) 0)"
| "depth (JObj ps) = Suc (foldr max (map (\<lambda>(k, v). depth v) ps) 0)"
| "depth v = 0"

definition stack_limit :: "nat \<Rightarrow> engine_limits" where
  "stack_limit n v space =
     (if n < depth v then Some (js ''Maximum call stack size exceeded'') else None)"

subsection \<open>A number too large for a double\<close>

lemma overflow_value: "round_mag (dec_value (1, 400)) = MInf"
proof (rule round_mag_overflow)
  have "(2::rat) ^ 1024 \<le> 10 ^ 400" by simp
  then show "2 ^ 1024 \<le> dec_value (1, 400)" by (simp add: dec_value_def)
qed

lemma lex_number_overflow:
  "lex_number (js ''1e400'') = Some (Num False MInf, [])"
  "lex_number (js ''1e400]'') = Some (Num False MInf, [RBRACKET])"
  by (simp_all add: js_def lex_number_def lex_int_def lex_frac_def lex_exp_def lex_digits_def
      is_digit_def int_of_digits_def digit_val_def overflow_value)

lemma lex_json_overflow:
  "lex_json (js ''1e400'') = Some [TNum (Num False MInf)]"
  "lex_json (js ''[1e400]'') = Some [TLBracket, TNum (Num False MInf), TRBracket]"
proof -
  have d: "is_digit 0x31 \<or> (0x31::u16) = MINUS" by (simp add: is_digit_def)
  have a: "js ''1e400'' = 0x31 # js ''e400''" "js ''1e400]'' = 0x31 # js ''e400]''"
    "js ''[1e400]'' = LBRACKET # js ''1e400]''"
    by (simp_all add: js_def)
  show "lex_json (js ''1e400'') = Some [TNum (Num False MInf)]"
    using lex_json_digit [OF d, of "js ''e400''"] lex_number_overflow(1)
    by (simp add: a [symmetric])
  have "lex_json (js ''1e400]'') = Some [TNum (Num False MInf), TRBracket]"
    using lex_json_digit [OF d, of "js ''e400]''"] lex_number_overflow(2)
    by (simp add: a [symmetric] lex_json_punct)
  then show "lex_json (js ''[1e400]'') = Some [TLBracket, TNum (Num False MInf), TRBracket]"
    by (simp add: a(3) lex_json_punct)
qed

lemma JSON_parse_overflow:
  "JSON_parse diag (js ''1e400'') = Inr (JNum (Num False MInf))"
  "JSON_parse diag (js ''[1e400]'') = Inr (JArr [JNum (Num False MInf)])"
  by (simp_all add: JSON_parse_def lex_json_overflow parse_tokens_def)

subsection \<open>Arrays in arrays\<close>

text \<open>
  \<open>nested n\<close> is the empty array inside \<open>n\<close> arrays, and \<open>nested_text n\<close> its text:
  \<open>n + 1\<close> opening brackets and as many closing ones.
\<close>

fun nested :: "nat \<Rightarrow> json" where
  "nested 0 = JArr []"
| "nested (Suc n) = JArr [nested n]"

definition nested_text :: "nat \<Rightarrow> jsstring" where
  "nested_text n = replicate (Suc n) LBRACKET @ replicate (Suc n) RBRACKET"

lemma depth_nested: "depth (nested n) = Suc n"
  by (induction n) simp_all

lemma wf_nested: "wf_json (nested n)"
  by (induction n) simp_all

lemma toks_nested: "toks (nested n) = replicate (Suc n) TLBracket @ replicate (Suc n) TRBracket"
proof (induction n)
  case 0
  show ?case by simp
next
  case (Suc n)
  have "toks (nested (Suc n)) = TLBracket # toks (nested n) @ [TRBracket]" by simp
  also have "\<dots> = replicate (Suc (Suc n)) TLBracket @ replicate (Suc n) TRBracket @ [TRBracket]"
    unfolding Suc.IH by simp
  also have "replicate (Suc n) TRBracket @ [TRBracket] = replicate (Suc (Suc n)) TRBracket"
    by (simp add: replicate_append_same)
  finally show ?case .
qed

lemma lex_json_brackets:
  assumes "lex_json cs = Some ts"
  shows "lex_json (replicate m LBRACKET @ cs) = Some (replicate m TLBracket @ ts)"
    and "lex_json (replicate m RBRACKET @ cs) = Some (replicate m TRBracket @ ts)"
  using assms by (induction m) (simp_all add: lex_json_punct)

lemma JSON_parse_nested: "JSON_parse diag (nested_text n) = Inr (nested n)"
proof -
  have "lex_json (replicate (Suc n) RBRACKET @ []) = Some (replicate (Suc n) TRBracket @ [])"
    by (rule lex_json_brackets(2)) simp
  then have "lex_json (replicate (Suc n) LBRACKET @ replicate (Suc n) RBRACKET) =
      Some (replicate (Suc n) TLBracket @ replicate (Suc n) TRBracket)"
    by (intro lex_json_brackets(1)) simp
  then have "lex_json (nested_text n) = Some (toks (nested n))"
    by (simp only: nested_text_def toks_nested)
  then show ?thesis by (simp add: JSON_parse_def parse_tokens_toks wf_nested)
qed

lemma parseJson_nested: "parseJson diag (nested_text n) = Inr (nested n)"
proof -
  have e: "nested_text n \<noteq> []" "hd (nested_text n) = LBRACKET" "last (nested_text n) = RBRACKET"
    by (simp_all add: nested_text_def)
  then have "trim (nested_text n) = nested_text n"
    by (intro trim_id) (simp_all add: is_js_space_def)
  then show ?thesis
    using e(1) JSON_parse_nested [of diag n]
    by (cases n) (simp_all add: parseJson_def)
qed

section \<open>Properties of the component\<close>

text \<open>
  Claim C1.  When the parse of the trimmed input yields a string, \<open>parseJson\<close> trims that
  string and, if the trimmed string starts with \<open>{\<close> and ends with \<open>}\<close> or starts
  with \<open>[\<close> and ends with \<open>]\<close>, parses it again: on success the inner value is the
  result, returned as it is; on failure the outer, untrimmed string is.  A string that does
  not look like JSON, and a value that is not a string, are returned unchanged.
\<close>

theorem parseJson_double_encoding:
  assumes "trim text \<noteq> []" and "JSON_parse diag (trim text) = Inr parsed"
  shows "parseJson diag text =
     (case parsed of
        JStr str \<Rightarrow>
          if looks_like_json (trim str) then
            (case JSON_parse diag (trim str) of
               Inr inner \<Rightarrow> Inr inner
             | Inl e \<Rightarrow> Inr (JStr str))
          else Inr (JStr str)
      | _ \<Rightarrow> Inr parsed)"
  using assms by (simp add: parseJson_def Let_def split: json.splits sum.splits)

text \<open>
  The four cases at work: a string holding an object is unwrapped; a string that looks
  like an array and is none stays, blanks included; a plain string stays; a string inside
  an array is not looked at.
\<close>

theorem parseJson_double_encoding_witness:
  \<open>parseJson example_diag (js ''"{'' @ [BACKSLASH] @ js ''"a'' @ [BACKSLASH] @ js ''":1}"'') =
     Inr (JObj [(js ''a'', JNum (Num False (MFin (2 ^ 52) (- 52))))]) \<and>
   parseJson example_diag (js ''" [1,] "'') = Inr (JStr (js '' [1,] '')) \<and>
   parseJson example_diag (js ''"hello"'') = Inr (JStr (js ''hello'')) \<and>
   parseJson example_diag (js ''[" [1] "]'') = Inr (JArr [JStr (js '' [1] '')])\<close>
proof -
  let ?a = \<open>js ''"{'' @ [BACKSLASH] @ js ''"a'' @ [BACKSLASH] @ js ''":1}"''\<close>
  have a1: "trim ?a \<noteq> []" by code_simp
  have a2: \<open>JSON_parse example_diag (trim ?a) = Inr (JStr (js ''{"a":1}''))\<close> by code_simp
  have a3: \<open>looks_like_json (trim (js ''{"a":1}''))\<close> by code_simp
  have a4: \<open>JSON_parse example_diag (trim (js ''{"a":1}'')) =
      Inr (JObj [(js ''a'', JNum (Num False (MFin (2 ^ 52) (- 52))))])\<close> by code_simp
  have a: \<open>parseJson example_diag ?a =
      Inr (JObj [(js ''a'', JNum (Num False (MFin (2 ^ 52) (- 52))))])\<close>
    using parseJson_double_encoding [OF a1 a2] a3 a4 by simp
  let ?b = \<open>js ''" [1,] "''\<close>
  have b1: "trim ?b \<noteq> []" by code_simp
  have b2: \<open>JSON_parse example_diag (trim ?b) = Inr (JStr (js '' [1,] ''))\<close> by code_simp
  have b3: \<open>looks_like_json (trim (js '' [1,] ''))\<close> by code_simp
  have b4: \<open>JSON_parse example_diag (trim (js '' [1,] '')) =
      Inl (SyntaxError (js ''Unexpected token''))\<close>
    by code_simp
  have b: \<open>parseJson example_diag ?b = Inr (JStr (js '' [1,] ''))\<close>
    using parseJson_double_encoding [OF b1 b2] b3 b4 by simp
  let ?c = \<open>js ''"hello"''\<close>
  have c1: "trim ?c \<noteq> []" by code_simp
  have c2: \<open>JSON_parse example_diag (trim ?c) = Inr (JStr (js ''hello''))\<close> by code_simp
  have c3: \<open>\<not> looks_like_json (trim (js ''hello''))\<close> by code_simp
  have c: \<open>parseJson example_diag ?c = Inr (JStr (js ''hello''))\<close>
    using parseJson_double_encoding [OF c1 c2] c3 by simp
  let ?d = \<open>js ''[" [1] "]''\<close>
  have d1: "trim ?d \<noteq> []" by code_simp
  have d2: \<open>JSON_parse example_diag (trim ?d) = Inr (JArr [JStr (js '' [1] '')])\<close>
    by code_simp
  have d: \<open>parseJson example_diag ?d = Inr (JArr [JStr (js '' [1] '')])\<close>
    using parseJson_double_encoding [OF d1 d2] by simp
  show ?thesis using a b c d by simp
qed

text \<open>
  Claim C2.  If \<^verbatim>\<open>JSON.parse\<close> accepts the trimmed text, \<open>parseJson\<close> returns a
  value \<open>v\<close>.  When \<open>formatJson\<close> then leaves no error, \<open>parseJson\<close> on its output
  returns \<open>reparsed v\<close>, which is \<open>v\<close> with \<open>null\<close> in the place of every infinite
  Number and zero in the place of minus zero.  So the value comes back as it was, up to
  the sign of zero, when none of its Numbers is infinite; and this for every indent and
  either setting of minify.
\<close>

theorem normalize_format_round_trip:
  assumes "JSON_parse diag (trim s) = Inr v0"
  shows "\<exists>v. parseJson diag s = Inr v \<and>
           (error (formatJson diag limits s opts st) = None \<longrightarrow>
              parseJson diag (output (formatJson diag limits s opts st)) = Inr (reparsed v) \<and>
              (all_finite v \<longrightarrow>
                 parseJson diag (output (formatJson diag limits s opts st)) = Inr (pos_zero v)))"
proof -
  from parseJson_valid [OF assms] obtain v where v: "parseJson diag s = Inr v" by blast
  have "parseJson diag (output (formatJson diag limits s opts st)) = Inr (reparsed v)"
    if "error (formatJson diag limits s opts st) = None"
    unfolding formatJson_output [OF v that] using v by (rule parseJson_stringify)
  then show ?thesis using v by (auto simp: reparsed_finite)
qed

theorem normalize_format_round_trip_witness:
  \<open>\<exists>v. parseJson example_diag (js '' {"b": [1, "x"], "a": null}'') = Inr v \<and>
     parseJson example_diag
       (output (formatJson example_diag (stack_limit 1000) (js '' {"b": [1, "x"], "a": null}'')
          \<lparr>indent = 2, minify = False\<rparr> example_state)) = Inr v\<close>
proof -
  let ?s = \<open>js '' {"b": [1, "x"], "a": null}''\<close>
  let ?v = \<open>JObj [(js ''b'', JArr [JNum (Num False (MFin (2 ^ 52) (- 52))), JStr (js ''x'')]),
      (js ''a'', JNull)]\<close>
  have h: "JSON_parse example_diag (trim ?s) = Inr ?v" by code_simp
  have p: "parseJson example_diag ?s = Inr ?v" by code_simp
  have e: "error (formatJson example_diag (stack_limit 1000) ?s \<lparr>indent = 2, minify = False\<rparr>
      example_state) = None"
    by (simp add: formatJson_def p JSON_stringify_on_def stack_limit_def)
  have f: "all_finite ?v" "pos_zero ?v = ?v" by simp_all
  from normalize_format_round_trip
    [OF h, of "stack_limit 1000" "\<lparr>indent = 2, minify = False\<rparr>" example_state]
  show ?thesis using e f p by auto
qed

text \<open>
  The value does not come back when a Number of the text is too large for a double:
  \<open>1e400\<close> is JSON and parses to infinity, which is written \<open>null\<close>.
\<close>

theorem round_trip_overflow:
  \<open>JSON_parse example_diag (trim (js ''1e400'')) = Inr (JNum (Num False MInf)) \<and>
   parseJson example_diag (js ''1e400'') = Inr (JNum (Num False MInf)) \<and>
   formatJson example_diag (stack_limit 1000) (js ''1e400'') \<lparr>indent = 2, minify = False\<rparr>
       example_state =
     example_state\<lparr>error := None, output := js ''null''\<rparr> \<and>
   parseJson example_diag (js ''null'') = Inr JNull\<close>
proof -
  have t: "trim (js ''1e400'') = js ''1e400''" "js ''1e400'' \<noteq> []" by code_simp+
  have a: "JSON_parse example_diag (trim (js ''1e400'')) = Inr (JNum (Num False MInf))"
    unfolding t by (rule JSON_parse_overflow)
  then have b: "parseJson example_diag (js ''1e400'') = Inr (JNum (Num False MInf))"
    using t by (simp add: parseJson_def)
  have c: "formatJson example_diag (stack_limit 1000) (js ''1e400'')
      \<lparr>indent = 2, minify = False\<rparr> example_state =
     example_state\<lparr>error := None, output := js ''null''\<rparr>"
    by (simp add: formatJson_def b JSON_stringify_on_def stack_limit_def JSON_stringify_def)
  have d: "parseJson example_diag (js ''null'') = Inr JNull" by code_simp
  show ?thesis using a b c d by simp
qed

text \<open>
  Claim C3.  When \<^verbatim>\<open>JSON.parse\<close> throws a SyntaxError on the trimmed input,
  \<open>parseJson\<close> throws an Error whose message is the parser's diagnostic after the prefix
  \<open>Invalid JSON: \<close>, and \<open>formatJson\<close> leaves that message as the error and the empty
  string as the output, whatever the output was before.
\<close>

theorem syntax_error_clears_output:
  assumes "trim text \<noteq> []" and "JSON_parse diag (trim text) = Inl (SyntaxError m)"
  shows "m = diag (trim text) \<and>
         parseJson diag text = Inl (Error (js ''Invalid JSON: '' @ m)) \<and>
         formatJson diag limits text opts st =
           st\<lparr>error := Some (js ''Invalid JSON: '' @ m), output := []\<rparr>"
proof -
  from assms(2) have m: "m = diag (trim text)"
    by (auto simp: JSON_parse_def split: option.splits)
  have p: "parseJson diag text = Inl (Error (js ''Invalid JSON: '' @ m))"
    using assms by (simp add: parseJson_def Let_def)
  show ?thesis using m p by (simp add: formatJson_def error_message_def)
qed

theorem syntax_error_clears_output_witness:
  \<open>formatJson example_diag (stack_limit 1000) (js ''{"a":}'') \<lparr>indent = 2, minify = False\<rparr>
       example_state =
     example_state\<lparr>error := Some (js ''Invalid JSON: Unexpected token''), output := []\<rparr>\<close>
proof -
  have h1: \<open>trim (js ''{"a":}'') \<noteq> []\<close> by code_simp
  have h2: \<open>JSON_parse example_diag (trim (js ''{"a":}'')) =
      Inl (SyntaxError (js ''Unexpected token''))\<close>
    by code_simp
  have h3: \<open>js ''Invalid JSON: '' @ js ''Unexpected token'' =
      js ''Invalid JSON: Unexpected token''\<close>
    by code_simp
  show ?thesis
    using syntax_error_clears_output
      [OF h1 h2, of "stack_limit 1000" "\<lparr>indent = 2, minify = False\<rparr>" example_state] h3
    by simp
qed

text \<open>
  Claim C4.  On an input of whitespace only (the empty input included) \<open>parseJson\<close>
  returns null, although a parse of the trimmed input would throw, and
  \<open>handleInputChange\<close> leaves the empty output and no error.
\<close>

theorem blank_input_no_error:
  assumes "\<forall>c \<in> set text. is_js_space c"
  shows "parseJson diag text = Inr JNull \<and>
         JSON_parse diag (trim text) = Inl (SyntaxError (diag [])) \<and>
         output (handleInputChange diag limits text st) = [] \<and>
         error (handleInputChange diag limits text st) = None"
  using trim_blank [OF assms]
  by (simp add: parseJson_def handleInputChange_def JSON_parse_empty)

theorem blank_input_no_error_witness:
  "parseJson example_diag [SPACE, NL, TAB] = Inr JNull \<and>
   output (handleInputChange example_diag (stack_limit 1000) [SPACE, NL, TAB] example_state) = [] \<and>
   error (handleInputChange example_diag (stack_limit 1000) [SPACE, NL, TAB] example_state) = None \<and>
   output (handleInputChange example_diag (stack_limit 1000) [] example_state) = []"
proof -
  have h: "\<forall>c \<in> set [SPACE, NL, TAB]. is_js_space c" by (simp add: is_js_space_def)
  have e: "\<forall>c \<in> set ([] :: jsstring). is_js_space c" by simp
  show ?thesis
    using blank_input_no_error [OF h, of example_diag "stack_limit 1000" example_state]
      blank_input_no_error [OF e, of example_diag "stack_limit 1000" example_state]
    by simp
qed

text \<open>
  Claim C5.  Whenever \<open>parseJson\<close> returns a value, \<open>formatJson\<close> fails in one case
  only, when the engine gives up on the serialization of that value: then the error is
  the message of the RangeError and the output is empty.  In every other case it sets no
  error and the output is the serialization of the value, a non-empty string, for every
  indent and either setting of minify.
\<close>

theorem format_fails_only_when_engine_gives_up:
  assumes "parseJson diag text = Inr v"
  shows "(case limits v (if minify opts then None else Some (indent opts)) of
            None \<Rightarrow>
              error (formatJson diag limits text opts st) = None \<and>
              output (formatJson diag limits text opts st) =
                JSON_stringify v (if minify opts then None else Some (indent opts)) \<and>
              output (formatJson diag limits text opts st) \<noteq> []
          | Some m \<Rightarrow>
              error (formatJson diag limits text opts st) = Some m \<and>
              output (formatJson diag limits text opts st) = [])"
  using assms
  by (simp add: formatJson_def JSON_stringify_on_def JSON_stringify_def ser_nonempty
      error_message_def split: option.splits)

text \<open>
  Both cases at work, on an engine whose stack holds one level of nesting: an array of
  scalars is written, an array in an array is not.
\<close>

theorem format_fails_only_when_engine_gives_up_witness:
  \<open>error (formatJson example_diag (stack_limit 1) (js ''[true, "x"]'')
      \<lparr>indent = 4, minify = False\<rparr> example_state) = None \<and>
   output (formatJson example_diag (stack_limit 1) (js ''[true, "x"]'')
      \<lparr>indent = 4, minify = False\<rparr> example_state) \<noteq> [] \<and>
   error (formatJson example_diag (stack_limit 1) (js ''[[0]]'')
      \<lparr>indent = 4, minify = False\<rparr> example_state) =
     Some (js ''Maximum call stack size exceeded'') \<and>
   output (formatJson example_diag (stack_limit 1) (js ''[[0]]'')
      \<lparr>indent = 4, minify = False\<rparr> example_state) = []\<close>
proof -
  have h: \<open>parseJson example_diag (js ''[true, "x"]'') =
      Inr (JArr [JBool True, JStr (js ''x'')])\<close>
    by code_simp
  have l: \<open>stack_limit 1 (JArr [JBool True, JStr (js ''x'')]) sp = None\<close> for sp
    by (simp add: stack_limit_def)
  have h': \<open>parseJson example_diag (js ''[[0]]'') = Inr (JArr [JArr [JNum (Num False MZero)]])\<close>
    by code_simp
  have l': \<open>stack_limit 1 (JArr [JArr [JNum (Num False MZero)]]) sp =
      Some (js ''Maximum call stack size exceeded'')\<close> for sp
    by (simp add: stack_limit_def)
  note a = format_fails_only_when_engine_gives_up
    [OF h, of "stack_limit 1" "\<lparr>indent = 4, minify = False\<rparr>" example_state]
  note b = format_fails_only_when_engine_gives_up
    [OF h', of "stack_limit 1" "\<lparr>indent = 4, minify = False\<rparr>" example_state]
  from a b show ?thesis unfolding l l' option.case by blast
qed

text \<open>
  The formatting does fail on a parsed value: on an engine whose stack holds \<open>n\<close>
  levels, the text of \<open>n + 1\<close> arrays one in another parses, and its serialization ends
  in the RangeError.
\<close>

theorem deep_nesting_fails:
  "\<forall>n. parseJson example_diag (nested_text n) = Inr (nested n) \<and>
        formatJson example_diag (stack_limit n) (nested_text n) \<lparr>indent = 2, minify = False\<rparr>
            example_state =
          example_state\<lparr>error := Some (js ''Maximum call stack size exceeded''), output := []\<rparr>"
  by (simp add: parseJson_nested formatJson_def JSON_stringify_on_def stack_limit_def
      depth_nested error_message_def)

text \<open>
  Claim C6.  Let \<open>parseJson\<close> return \<open>v\<close> and let \<open>formatJson\<close>, with minify set,
  leave no error.  Then no whitespace character stands in the output outside its string
  literals, and \<^verbatim>\<open>JSON.parse\<close> reads the output as \<open>reparsed v\<close>: as \<open>v\<close> with
  \<open>null\<close> in the place of every infinite Number and zero in the place of minus zero.
  So the output reads back as \<open>v\<close>, up to the sign of zero, when no Number of \<open>v\<close> is
  infinite.
\<close>

theorem minify_compact_round_trip:
  assumes "parseJson diag text = Inr v" and "minify opts"
    and "error (formatJson diag limits text opts st) = None"
  shows "list_all (\<lambda>c. \<not> is_js_space c)
           (outside_strings Outside (output (formatJson diag limits text opts st))) \<and>
         JSON_parse diag (output (formatJson diag limits text opts st)) = Inr (reparsed v) \<and>
         (all_finite v \<longrightarrow>
            JSON_parse diag (output (formatJson diag limits text opts st)) = Inr (pos_zero v))"
proof -
  have wf: "wf_json v" using assms(1) by (rule parseJson_wf)
  have out: "output (formatJson diag limits text opts st) = JSON_stringify v None"
    using formatJson_output [OF assms(1,3)] assms(2) by simp
  show ?thesis
    unfolding out
    using JSON_stringify_unspaced [OF wf] JSON_parse_stringify [OF wf, of diag None]
    by (simp add: reparsed_finite)
qed

text \<open>
  Blanks inside the keys and strings stay, those between the tokens of the input go.
\<close>

theorem minify_compact_round_trip_witness:
  \<open>list_all (\<lambda>c. \<not> is_js_space c)
     (outside_strings Outside
        (output (formatJson example_diag (stack_limit 1000) (js ''{ "a b" : [1, "x y"] }'')
           \<lparr>indent = 2, minify = True\<rparr> example_state))) \<and>
   JSON_parse example_diag
     (output (formatJson example_diag (stack_limit 1000) (js ''{ "a b" : [1, "x y"] }'')
        \<lparr>indent = 2, minify = True\<rparr> example_state)) =
     Inr (JObj [(js ''a b'', JArr [JNum (Num False (MFin (2 ^ 52) (- 52))), JStr (js ''x y'')])])\<close>
proof -
  let ?s = \<open>js ''{ "a b" : [1, "x y"] }''\<close>
  let ?v = \<open>JObj [(js ''a b'', JArr [JNum (Num False (MFin (2 ^ 52) (- 52))), JStr (js ''x y'')])]\<close>
  have p: "parseJson example_diag ?s = Inr ?v" by code_simp
  have e: "error (formatJson example_diag (stack_limit 1000) ?s \<lparr>indent = 2, minify = True\<rparr>
      example_state) = None"
    by (simp add: formatJson_def p JSON_stringify_on_def stack_limit_def)
  have m: "minify \<lparr>indent = 2, minify = True\<rparr>" by simp
  have f: "all_finite ?v" "pos_zero ?v = ?v" by simp_all
  note r = minify_compact_round_trip [OF p m e]
  from r f(1) have "JSON_parse example_diag
      (output (formatJson example_diag (stack_limit 1000) ?s \<lparr>indent = 2, minify = True\<rparr>
         example_state)) = Inr (pos_zero ?v)"
    by blast
  then have "JSON_parse example_diag
      (output (formatJson example_diag (stack_limit 1000) ?s \<lparr>indent = 2, minify = True\<rparr>
         example_state)) = Inr ?v"
    by (simp only: f(2))
  with r show ?thesis by blast
qed

text \<open>
  An infinite Number does not read back: the array of the text \<open>[1e400]\<close> is written
  \<open>[null]\<close>.
\<close>

theorem minify_overflow:
  \<open>parseJson example_diag (js ''[1e400]'') = Inr (JArr [JNum (Num False MInf)]) \<and>
   formatJson example_diag (stack_limit 1000) (js ''[1e400]'') \<lparr>indent = 2, minify = True\<rparr>
       example_state =
     example_state\<lparr>error := None, output := js ''[null]''\<rparr> \<and>
   JSON_parse example_diag (js ''[null]'') = Inr (JArr [JNull])\<close>
proof -
  have t: "trim (js ''[1e400]'') = js ''[1e400]''" "js ''[1e400]'' \<noteq> []" by code_simp+
  have b: "parseJson example_diag (js ''[1e400]'') = Inr (JArr [JNum (Num False MInf)])"
    using t JSON_parse_overflow(2) [of example_diag] by (simp add: parseJson_def)
  have "JSON_stringify (JArr [JNum (Num False MInf)]) None = js ''[null]''"
    by (simp add: JSON_stringify_def wrap_def js_def)
  then have c: "formatJson example_diag (stack_limit 1000) (js ''[1e400]'')
      \<lparr>indent = 2, minify = True\<rparr> example_state =
     example_state\<lparr>error := None, output := js ''[null]''\<rparr>"
    by (simp add: formatJson_def b JSON_stringify_on_def stack_limit_def)
  have d: "JSON_parse example_diag (js ''[null]'') = Inr (JArr [JNull])" by code_simp
  show ?thesis using b c d by simp
qed

text \<open>
  Claim C7.  Let \<open>parseJson\<close> return a non-empty array or object \<open>v\<close>, and let
  \<open>formatJson\<close> leave no error for two options without minify, the first with the
  smaller indent, which is less than ten.  Then the first output is strictly shorter than
  the second, and \<^verbatim>\<open>JSON.parse\<close> reads both as \<open>reparsed v\<close>, which is \<open>v\<close> up to
  the sign of zero when no Number of \<open>v\<close> is infinite.  Indents 2 and 4 are a case.
\<close>

theorem wider_indent_longer:
  assumes "parseJson diag text = Inr v" and "non_empty v"
    and "\<not> minify o1" and "\<not> minify o2" and "indent o1 < indent o2" and "indent o1 < 10"
    and "error (formatJson diag limits text o1 st) = None"
    and "error (formatJson diag limits text o2 st) = None"
  shows "length (output (formatJson diag limits text o1 st)) <
           length (output (formatJson diag limits text o2 st)) \<and>
         JSON_parse diag (output (formatJson diag limits text o1 st)) = Inr (reparsed v) \<and>
         JSON_parse diag (output (formatJson diag limits text o2 st)) = Inr (reparsed v) \<and>
         (all_finite v \<longrightarrow>
            JSON_parse diag (output (formatJson diag limits text o1 st)) = Inr (pos_zero v) \<and>
            JSON_parse diag (output (formatJson diag limits text o2 st)) = Inr (pos_zero v))"
proof -
  have wf: "wf_json v" using assms(1) by (rule parseJson_wf)
  have o1: "output (formatJson diag limits text o1 st) = JSON_stringify v (Some (indent o1))"
    using formatJson_output [OF assms(1,7)] assms(3) by simp
  have o2: "output (formatJson diag limits text o2 st) = JSON_stringify v (Some (indent o2))"
    using formatJson_output [OF assms(1,8)] assms(4) by simp
  show ?thesis
    unfolding o1 o2
    using JSON_stringify_length_less [OF assms(2,5,6)] JSON_parse_stringify [OF wf]
    by (simp add: reparsed_finite)
qed

theorem wider_indent_longer_witness:
  \<open>length (output (formatJson example_diag (stack_limit 1000) (js ''{"a":[1,2]}'')
      \<lparr>indent = 2, minify = False\<rparr> example_state)) <
   length (output (formatJson example_diag (stack_limit 1000) (js ''{"a":[1,2]}'')
      \<lparr>indent = 4, minify = False\<rparr> example_state)) \<and>
   JSON_parse example_diag
     (output (formatJson example_diag (stack_limit 1000) (js ''{"a":[1,2]}'')
        \<lparr>indent = 4, minify = False\<rparr> example_state)) =
     Inr (JObj [(js ''a'', JArr [JNum (Num False (MFin (2 ^ 52) (- 52))),
                                  JNum (Num False (MFin (2 ^ 52) (- 51)))])])\<close>
proof -
  let ?s = \<open>js ''{"a":[1,2]}''\<close>
  let ?v = \<open>JObj [(js ''a'', JArr [JNum (Num False (MFin (2 ^ 52) (- 52))),
                                  JNum (Num False (MFin (2 ^ 52) (- 51)))])]\<close>
  have p: "parseJson example_diag ?s = Inr ?v" by code_simp
  have e: "error (formatJson example_diag (stack_limit 1000) ?s \<lparr>indent = n, minify = False\<rparr>
      example_state) = None" for n
    by (simp add: formatJson_def p JSON_stringify_on_def stack_limit_def)
  have f: "all_finite ?v" "pos_zero ?v = ?v" "non_empty ?v" by simp_all
  have o: "\<not> minify \<lparr>indent = 2, minify = False\<rparr>" "\<not> minify \<lparr>indent = 4, minify = False\<rparr>"
    "indent \<lparr>indent = 2, minify = False\<rparr> < indent \<lparr>indent = 4, minify = False\<rparr>"
    "indent \<lparr>indent = 2, minify = False\<rparr> < 10"
    by simp_all
  note r = wider_indent_longer [OF p f(3) o e e]
  from r f(1) have "JSON_parse example_diag
      (output (formatJson example_diag (stack_limit 1000) ?s \<lparr>indent = 4, minify = False\<rparr>
         example_state)) = Inr (pos_zero ?v)"
    by blast
  then have "JSON_parse example_diag
      (output (formatJson example_diag (stack_limit 1000) ?s \<lparr>indent = 4, minify = False\<rparr>
         example_state)) = Inr ?v"
    by (simp only: f(2))
  with r show ?thesis by blast
qed

text \<open>
  With an infinite Number in the array neither output reads back as the array.
\<close>

theorem indent_overflow:
  \<open>parseJson example_diag (js ''[1e400]'') = Inr (JArr [JNum (Num False MInf)]) \<and>
   output (formatJson example_diag (stack_limit 1000) (js ''[1e400]'')
      \<lparr>indent = 2, minify = False\<rparr> example_state) = js ''[\<newline>  null\<newline>]'' \<and>
   output (formatJson example_diag (stack_limit 1000) (js ''[1e400]'')
      \<lparr>indent = 4, minify = False\<rparr> example_state) = js ''[\<newline>    null\<newline>]'' \<and>
   JSON_parse example_diag (js ''[\<newline>  null\<newline>]'') = Inr (JArr [JNull]) \<and>
   JSON_parse example_diag (js ''[\<newline>    null\<newline>]'') = Inr (JArr [JNull])\<close>
proof -
  have t: "trim (js ''[1e400]'') = js ''[1e400]''" "js ''[1e400]'' \<noteq> []" by code_simp+
  have b: "parseJson example_diag (js ''[1e400]'') = Inr (JArr [JNum (Num False MInf)])"
    using t JSON_parse_overflow(2) [of example_diag] by (simp add: parseJson_def)
  have s: "JSON_stringify (JArr [JNum (Num False MInf)]) (Some 2) = js ''[\<newline>  null\<newline>]''"
    "JSON_stringify (JArr [JNum (Num False MInf)]) (Some 4) = js ''[\<newline>    null\<newline>]''"
    by (simp_all add: JSON_stringify_def wrap_def js_def eval_nat_numeral)
  have c: "output (formatJson example_diag (stack_limit 1000) (js ''[1e400]'')
      \<lparr>indent = 2, minify = False\<rparr> example_state) = js ''[\<newline>  null\<newline>]''"
    by (simp add: formatJson_def b JSON_stringify_on_def stack_limit_def s)
  have c': "output (formatJson example_diag (stack_limit 1000) (js ''[1e400]'')
      \<lparr>indent = 4, minify = False\<rparr> example_state) = js ''[\<newline>    null\<newline>]''"
    by (simp add: formatJson_def b JSON_stringify_on_def stack_limit_def s)
  have d: "JSON_parse example_diag (js ''[\<newline>  null\<newline>]'') = Inr (JArr [JNull])"
    "JSON_parse example_diag (js ''[\<newline>    null\<newline>]'') = Inr (JArr [JNull])"
    by code_simp+
  show ?thesis using b c c' d by simp
qed




text \<open>
  Claim C9.  The output and the error that \<open>formatJson\<close> leaves are functions of the
  text and the options alone: two runs on the same text and options agree, whatever state
  each started from.
\<close>

theorem formatJson_state_independent:
  "output (formatJson diag limits text opts st1) = output (formatJson diag limits text opts st2) \<and>
   error (formatJson diag limits text opts st1) = error (formatJson diag limits text opts st2)"
  by (simp add: formatJson_def split: sum.splits)

theorem formatJson_state_independent_witness:
  \<open>output (formatJson example_diag (stack_limit 1000) (js ''{"a":}'')
      \<lparr>indent = 2, minify = False\<rparr> example_state) =
   output (formatJson example_diag (stack_limit 1000) (js ''{"a":}'')
      \<lparr>indent = 2, minify = False\<rparr>
      (example_state\<lparr>output := js ''stale'', error := Some (js ''old'')\<rparr>))\<close>
  using formatJson_state_independent
    [of example_diag "stack_limit 1000" \<open>js ''{"a":}''\<close> "\<lparr>indent = 2, minify = False\<rparr>"
        example_state
        "example_state\<lparr>output := js ''stale'', error := Some (js ''old'')\<rparr>"]
  by simp

text \<open>
  Claim C10.  With minify set, the indent of the options has no effect on what
  \<open>formatJson\<close> leaves.
\<close>

theorem minify_ignores_indent:
  assumes "minify o1" and "minify o2"
  shows "output (formatJson diag limits text o1 st) = output (formatJson diag limits text o2 st) \<and>
         error (formatJson diag limits text o1 st) = error (formatJson diag limits text o2 st)"
  using assms by (simp add: formatJson_def split: sum.splits)

theorem minify_ignores_indent_witness:
  "output (formatJson example_diag (stack_limit 1000) (js ''[1, 2]'')
      \<lparr>indent = 2, minify = True\<rparr> example_state) =
   output (formatJson example_diag (stack_limit 1000) (js ''[1, 2]'')
      \<lparr>indent = 8, minify = True\<rparr> example_state)"
  using minify_ignores_indent
    [of "\<lparr>indent = 2, minify = True\<rparr>" "\<lparr>indent = 8, minify = True\<rparr>"
        example_diag "stack_limit 1000" "js ''[1, 2]''" example_state]
  by simp

end
